theory Spec2Isabelle
  imports Main "HOL-Library.Log_Nat" "HOL-Library.Multiset"
begin

unbundle bit_operations_syntax

section \<open>Values and errors of the Python program\<close>

text \<open>
  The converter is one Python module, \<^verbatim>\<open>main.py\<close>. Python integers are unbounded
  and are modelled by \<^typ>\<open>int\<close>. A Python \<^verbatim>\<open>str\<close> is modelled by \<^typ>\<open>string\<close>,
  each \<^typ>\<open>char\<close> standing for the code point of the same number; the model
  therefore covers the texts whose code points are below 256. Every exception
  that the modelled code can raise is a value of \<open>error\<close>, and a function that
  may raise returns \<open>error + 'a\<close> with \<open>Inl\<close> for the exception.
\<close>

datatype error = ValueError | OverflowError | ZeroDivisionError

definition and_then :: "error + 'a \<Rightarrow> ('a \<Rightarrow> error + 'b) \<Rightarrow> error + 'b" where
  "and_then m f = (case m of Inl e \<Rightarrow> Inl e | Inr v \<Rightarrow> f v)"

section \<open>Python floats: IEEE 754 binary64, round to nearest, ties to even\<close>

text \<open>
  A finite float is the rational number it denotes. \<open>fl r\<close> is the binary64
  number nearest to \<open>r\<close> when the exponent range is unbounded above:
  the quantum is \<open>2 ^ (e - 52)\<close> for \<open>2 ^ e \<le> \<bar>r\<bar> < 2 ^ (e + 1)\<close>, and
  \<open>2 ^ - 1074\<close> in the subnormal range (\<open>e < - 1022\<close>). The sign of a zero is
  not kept: the program never observes it.

  A result whose rounded magnitude reaches \<open>2 ^ 1024\<close> does not fit. The int
  to float conversion and the int by int true division raise OverflowError
  there. The float operations \<^verbatim>\<open>/\<close>, \<^verbatim>\<open>*\<close> and \<^verbatim>\<open>+\<close> produce an infinity
  instead, but every float of this program flows, through further products
  and sums with finite operands, into \<^verbatim>\<open>int()\<close>, which raises OverflowError on
  an infinity; so \<open>to_double\<close> raises OverflowError at the operation itself.
\<close>

definition pow2 :: "int \<Rightarrow> rat" where
  "pow2 e = (if 0 \<le> e then 2 ^ nat e else 1 / 2 ^ nat (- e))"

definition round_half_even :: "rat \<Rightarrow> int" where
  "round_half_even t =
     (let f = \<lfloor>t\<rfloor>; d = t - of_int f
      in if d < 1 / 2 then f else if 1 / 2 < d then f + 1 else if even f then f else f + 1)"

text \<open>The binary exponent of a positive rational: \<open>2 ^ expo r \<le> r < 2 ^ (expo r + 1)\<close>.\<close>

definition expo :: "rat \<Rightarrow> int" where
  "expo r = (if 1 \<le> r then bitlen \<lfloor>r\<rfloor> - 1 else - bitlen (\<lceil>1 / r\<rceil> - 1))"

definition fl :: "rat \<Rightarrow> rat" where
  "fl r = (if r = 0 then 0
           else let q = pow2 (max (expo \<bar>r\<bar>) (- 1022) - 52)
                in of_int (round_half_even (r / q)) * q)"

definition to_double :: "rat \<Rightarrow> error + rat" where
  "to_double r =
     (let v = fl r in if v \<noteq> 0 \<and> 1024 \<le> expo \<bar>v\<bar> then Inl OverflowError else Inr v)"

text \<open>\<^verbatim>\<open>float(i)\<close>, as done implicitly when an int meets a float in an operation.\<close>

definition int_to_float :: "int \<Rightarrow> error + rat" where
  "int_to_float i = to_double (of_int i)"

text \<open>\<^verbatim>\<open>a / b\<close> on two ints: the correctly rounded quotient.\<close>

definition true_div :: "int \<Rightarrow> int \<Rightarrow> error + rat" where
  "true_div a b = (if b = 0 then Inl ZeroDivisionError else to_double (of_int a / of_int b))"

definition float_div :: "rat \<Rightarrow> rat \<Rightarrow> error + rat" where
  "float_div a b = (if b = 0 then Inl ZeroDivisionError else to_double (a / b))"

definition float_mul :: "rat \<Rightarrow> rat \<Rightarrow> error + rat" where
  "float_mul a b = to_double (a * b)"

definition float_add :: "rat \<Rightarrow> rat \<Rightarrow> error + rat" where
  "float_add a b = to_double (a + b)"

text \<open>\<^verbatim>\<open>int(f)\<close> on a finite float truncates towards zero.\<close>

definition float_to_int :: "rat \<Rightarrow> int" where
  "float_to_int r = (if 0 \<le> r then \<lfloor>r\<rfloor> else \<lceil>r\<rceil>)"

section \<open>The coordinate mapper\<close>

text \<open>
  \<^verbatim>\<open>map_column_x_to_Vectra_x(x, keys, osu_playfield_width=512)\<close>.
  \<open>column_of_x\<close> is the first half of its body: the column width, the column
  index \<^verbatim>\<open>int(x / col_width)\<close> and the two clamping statements.
  \<open>column_center\<close> is the second half:
  \<^verbatim>\<open>int(col * (osu_playfield_width / keys) + (osu_playfield_width / keys) / 2)\<close>.
\<close>

definition column_of_x :: "int \<Rightarrow> int \<Rightarrow> int \<Rightarrow> error + int" where
  "column_of_x x keys osu_playfield_width =
     and_then (true_div osu_playfield_width keys) (\<lambda>col_width.
     and_then (int_to_float x) (\<lambda>xf.
     and_then (float_div xf col_width) (\<lambda>q.
       let col = float_to_int q;
           col = (if col < 0 then 0 else col);
           col = (if keys \<le> col then keys - 1 else col)
       in Inr col)))"

definition column_center :: "int \<Rightarrow> int \<Rightarrow> int \<Rightarrow> error + int" where
  "column_center col keys osu_playfield_width =
     and_then (true_div osu_playfield_width keys) (\<lambda>w1.
     and_then (int_to_float col) (\<lambda>cf.
     and_then (float_mul cf w1) (\<lambda>p.
     and_then (true_div osu_playfield_width keys) (\<lambda>w2.
     and_then (float_div w2 2) (\<lambda>h.
     and_then (float_add p h) (\<lambda>s.
       Inr (float_to_int s)))))))"

definition map_column_x_to_Vectra_x :: "int \<Rightarrow> int \<Rightarrow> int \<Rightarrow> error + int" where
  "map_column_x_to_Vectra_x x keys osu_playfield_width =
     and_then (column_of_x x keys osu_playfield_width) (\<lambda>col.
       column_center col keys osu_playfield_width)"

section \<open>Strings\<close>

text \<open>
  The characters at which \<^verbatim>\<open>str.splitlines\<close> ends a line, those that
  \<^verbatim>\<open>str.strip\<close> removes, and those that \<^verbatim>\<open>int()\<close> accepts around a literal,
  among the code points below 256. \<^verbatim>\<open>int()\<close> does not skip the separators
  0x1C to 0x1F, which \<^verbatim>\<open>strip\<close> removes.
\<close>

definition is_linebreak :: "char \<Rightarrow> bool" where
  "is_linebreak c \<longleftrightarrow>
     c \<in> set [CHR 0x0A, CHR 0x0B, CHR 0x0C, CHR 0x0D, CHR 0x1C, CHR 0x1D, CHR 0x1E, CHR 0x85]"

definition is_space :: "char \<Rightarrow> bool" where
  "is_space c \<longleftrightarrow>
     c \<in> set [CHR 0x09, CHR 0x0A, CHR 0x0B, CHR 0x0C, CHR 0x0D, CHR 0x1C, CHR 0x1D, CHR 0x1E,
               CHR 0x1F, CHR 0x20, CHR 0x85, CHR 0xA0]"

definition is_int_space :: "char \<Rightarrow> bool" where
  "is_int_space c \<longleftrightarrow>
     c \<in> set [CHR 0x09, CHR 0x0A, CHR 0x0B, CHR 0x0C, CHR 0x0D, CHR 0x20, CHR 0x85, CHR 0xA0]"

definition is_digit :: "char \<Rightarrow> bool" where
  "is_digit c \<longleftrightarrow> c \<in> set ''0123456789''"

definition digit_val :: "char \<Rightarrow> int" where
  "digit_val c = int (of_char c) - 48"

text \<open>\<^verbatim>\<open>s.splitlines()\<close>: a carriage return followed by a line feed ends one line.\<close>

fun splitlines_from :: "string \<Rightarrow> string \<Rightarrow> string list" where
  "splitlines_from cur [] = (if cur = [] then [] else [cur])"
| "splitlines_from cur [c] = (if is_linebreak c then [cur] else [cur @ [c]])"
| "splitlines_from cur (c # d # cs) =
     (if c = CHR 0x0D \<and> d = CHR 0x0A then cur # splitlines_from [] cs
      else if is_linebreak c then cur # splitlines_from [] (d # cs)
      else splitlines_from (cur @ [c]) (d # cs))"

definition splitlines :: "string \<Rightarrow> string list" where
  "splitlines s = splitlines_from [] s"

definition strip :: "string \<Rightarrow> string" where
  "strip s = rev (dropWhile is_space (rev (dropWhile is_space s)))"

definition startswith :: "string \<Rightarrow> string \<Rightarrow> bool" where
  "startswith s p \<longleftrightarrow> take (length p) s = p"

definition endswith :: "string \<Rightarrow> string \<Rightarrow> bool" where
  "endswith s p \<longleftrightarrow> length p \<le> length s \<and> drop (length s - length p) s = p"

text \<open>\<^verbatim>\<open>s.split(',')\<close>: always at least one field.\<close>

fun split_from :: "string \<Rightarrow> string \<Rightarrow> string list" where
  "split_from cur [] = [cur]"
| "split_from cur (c # cs) =
     (if c = CHR '','' then cur # split_from [] cs else split_from (cur @ [c]) cs)"

definition split_comma :: "string \<Rightarrow> string list" where
  "split_comma s = split_from [] s"

text \<open>
  \<^verbatim>\<open>int(s)\<close> on a string, base 10: optional white space, an optional sign, then
  digits, any two of which may be separated by one underscore, then optional
  white space; anything else is a ValueError. \<open>parse_digits\<close> returns the value
  and the number of digits read. The interpreter refuses a literal of more
  than \<^verbatim>\<open>sys.get_int_max_str_digits()\<close> digits with a ValueError; that setting is
  the parameter \<open>maxd\<close>, and 0 means that there is no limit (as in the
  interpreters before the limit was introduced).
\<close>

fun parse_digits :: "int \<Rightarrow> nat \<Rightarrow> string \<Rightarrow> (int \<times> nat) option" where
  "parse_digits acc n [] = None"
| "parse_digits acc n [c] = (if is_digit c then Some (acc * 10 + digit_val c, Suc n) else None)"
| "parse_digits acc n (c # d # cs) =
     (if is_digit c then
        (if d = CHR ''_'' then parse_digits (acc * 10 + digit_val c) (Suc n) cs
         else parse_digits (acc * 10 + digit_val c) (Suc n) (d # cs))
      else None)"

definition py_int :: "nat \<Rightarrow> string \<Rightarrow> error + int" where
  "py_int maxd s =
     (let t = rev (dropWhile is_int_space (rev (dropWhile is_int_space s)));
          neg = (t \<noteq> [] \<and> hd t = CHR ''-'');
          body = (if t \<noteq> [] \<and> (hd t = CHR ''-'' \<or> hd t = CHR ''+'') then tl t else t)
      in case parse_digits 0 0 body of
           None \<Rightarrow> Inl ValueError
         | Some (v, n) \<Rightarrow>
             if 0 < maxd \<and> maxd < n then Inl ValueError
             else Inr (if neg then - v else v))"

text \<open>
  \<^verbatim>\<open>str(i)\<close> and \<^verbatim>\<open>'{}'.format(i)\<close> on an int: the decimal digits, a minus sign
  before a negative number, and a ValueError when there are more digits
  than the interpreter's limit.
\<close>

function int_digits :: "int \<Rightarrow> string" where
  "int_digits n =
     (if n < 10 then [''0123456789'' ! nat n]
      else int_digits (n div 10) @ [''0123456789'' ! nat (n mod 10)])"
  by pat_completeness auto
termination
  by (relation "measure nat") auto

definition show_int :: "int \<Rightarrow> string" where
  "show_int i = (if i < 0 then CHR ''-'' # int_digits (- i) else int_digits i)"

definition py_str :: "nat \<Rightarrow> int \<Rightarrow> error + string" where
  "py_str maxd i =
     (if 0 < maxd \<and> maxd < length (int_digits \<bar>i\<bar>) then Inl ValueError
      else Inr (show_int i))"

text \<open>
  \<^verbatim>\<open>re.match(r"(\d+):", obj)\<close>: the longest run of digits at the start of
  \<open>obj\<close>, when it is not empty and a colon follows it; the result is group 1.
\<close>

definition match_end_time :: "string \<Rightarrow> string option" where
  "match_end_time obj =
     (let ds = takeWhile is_digit obj; rest = dropWhile is_digit obj
      in if ds \<noteq> [] \<and> rest \<noteq> [] \<and> hd rest = CHR '':'' then Some ds else None)"

section \<open>The chart reader\<close>

text \<open>
  A note is the dict \<^verbatim>\<open>{'x': .., 'time': .., 'type': .., 'end_time': ..}\<close>; the
  fields carry the prefix \<open>note_\<close>. The metadata dict has the one key
  \<^verbatim>\<open>'timing_points'\<close>.
\<close>

record note_event =
  note_x :: int
  note_time :: int
  note_type :: int
  note_end_time :: "int option"

record chart_meta =
  timing_points :: "string list"

text \<open>
  The end time of a hold note: the body of \<^verbatim>\<open>if type_val & 128:\<close>, with
  \<^verbatim>\<open>end_time = None\<close> before it. The \<^verbatim>\<open>except ValueError\<close> handler turns a
  ValueError of \<^verbatim>\<open>int(m.group(1))\<close> into \<^verbatim>\<open>None\<close> and lets any other
  exception through.
\<close>

definition hold_end_time :: "nat \<Rightarrow> int \<Rightarrow> string list \<Rightarrow> error + int option" where
  "hold_end_time maxd type_val parts =
     (if type_val AND 128 \<noteq> 0 then
        (if 6 \<le> length parts then
           (case match_end_time (parts ! 5) of
              None \<Rightarrow> Inr None
            | Some g \<Rightarrow>
                (case py_int maxd g of
                   Inr v \<Rightarrow> Inr (Some v)
                 | Inl e \<Rightarrow> if e = ValueError then Inr None else Inl e))
         else Inr None)
      else Inr None)"

text \<open>
  The state of the loop over the lines: the current section, the notes and
  the timing-point lines collected so far. \<open>parse_line\<close> is one iteration of
  the loop body.
\<close>

type_synonym reader_state = "string option \<times> note_event list \<times> string list"

definition parse_line :: "nat \<Rightarrow> reader_state \<Rightarrow> string \<Rightarrow> error + reader_state" where
  "parse_line maxd st raw =
     (case st of (section, hitobjects, tps) \<Rightarrow>
        let line = strip raw in
        if line = [] \<or> startswith line ''//'' then Inr st
        else if startswith line ''['' \<and> endswith line '']'' then
          Inr (Some (butlast (tl line)), hitobjects, tps)
        else if section = Some ''HitObjects'' then
          (let parts = split_comma line in
           if length parts < 5 then Inr st
           else
             and_then (py_int maxd (parts ! 0)) (\<lambda>x.
             and_then (py_int maxd (parts ! 2)) (\<lambda>time.
             and_then (py_int maxd (parts ! 3)) (\<lambda>type_val.
             and_then (hold_end_time maxd type_val parts) (\<lambda>end_time.
               Inr (section,
                    hitobjects @ [\<lparr>note_x = x, note_time = time, note_type = type_val,
                                    note_end_time = end_time\<rparr>],
                    tps))))))
        else if section = Some ''TimingPoints'' then Inr (section, hitobjects, tps @ [line])
        else Inr st)"

fun parse_lines :: "nat \<Rightarrow> reader_state \<Rightarrow> string list \<Rightarrow> error + reader_state" where
  "parse_lines maxd st [] = Inr st"
| "parse_lines maxd st (line # rest) =
     and_then (parse_line maxd st line) (\<lambda>st'. parse_lines maxd st' rest)"

definition parse_osu_hitobjects :: "nat \<Rightarrow> string \<Rightarrow> error + (note_event list \<times> chart_meta)" where
  "parse_osu_hitobjects maxd osu_text =
     and_then (parse_lines maxd (None, [], []) (splitlines osu_text)) (\<lambda>st.
       case st of (section, hitobjects, tps) \<Rightarrow>
         Inr (hitobjects, \<lparr>timing_points = tps\<rparr>))"

section \<open>The output generator\<close>

text \<open>
  The chart length: \<^verbatim>\<open>max((n['end_time'] or n['time']) for n in notes) if notes else 0\<close>
  and then \<^verbatim>\<open>int((max_time // 1000) + 1)\<close>. The operator \<^verbatim>\<open>or\<close> takes its right
  operand when the left one is \<^verbatim>\<open>None\<close> or 0.
\<close>

definition end_or_time :: "note_event \<Rightarrow> int" where
  "end_or_time n =
     (case note_end_time n of
        None \<Rightarrow> note_time n
      | Some e \<Rightarrow> if e = 0 then note_time n else e)"

definition max_time :: "note_event list \<Rightarrow> int" where
  "max_time notes =
     (if notes = [] then 0
      else fold max (map end_or_time (tl notes)) (end_or_time (hd notes)))"

definition chart_length :: "note_event list \<Rightarrow> int" where
  "chart_length notes = max_time notes div 1000 + 1"

text \<open>
  The body of the loop over the notes: the five values of one entry, and the
  line \<^verbatim>\<open>'    {{{}, {}, {}, {}, {}}},'.format(t, ex, speed, slider_len, time_ms)\<close>.
\<close>

type_synonym lua_tuple = "int \<times> int \<times> int \<times> int \<times> int"

definition note_tuple :: "int \<Rightarrow> note_event \<Rightarrow> error + lua_tuple" where
  "note_tuple keys n =
     and_then (map_column_x_to_Vectra_x (note_x n) keys 512) (\<lambda>ex.
       Inr (1, ex, 400, 0, note_time n))"

definition format_tuple :: "nat \<Rightarrow> lua_tuple \<Rightarrow> error + string" where
  "format_tuple maxd tup =
     (case tup of (t, ex, speed, slider_len, time_ms) \<Rightarrow>
        and_then (py_str maxd t) (\<lambda>s1.
        and_then (py_str maxd ex) (\<lambda>s2.
        and_then (py_str maxd speed) (\<lambda>s3.
        and_then (py_str maxd slider_len) (\<lambda>s4.
        and_then (py_str maxd time_ms) (\<lambda>s5.
          Inr (''    {'' @ s1 @ '', '' @ s2 @ '', '' @ s3 @ '', '' @ s4 @ '', '' @ s5
               @ ''},'')))))))"

fun render_notes :: "nat \<Rightarrow> int \<Rightarrow> note_event list \<Rightarrow> error + string list" where
  "render_notes maxd keys [] = Inr []"
| "render_notes maxd keys (n # notes) =
     and_then (note_tuple keys n) (\<lambda>tup.
     and_then (format_tuple maxd tup) (\<lambda>line.
     and_then (render_notes maxd keys notes) (\<lambda>lines.
       Inr (line # lines))))"

text \<open>The lines before and after the note table, and \<^verbatim>\<open>'\n'.join\<close>.\<close>

definition lua_header :: "string \<Rightarrow> string \<Rightarrow> string \<Rightarrow> string list" where
  \<open>lua_header title song len =
     [''map = { }'',
      [],
      ''function map:getBackground()'',
      ''  return "maps/'' @ title @ ''/bg.jpg"'',
      ''end'',
      [],
      ''function map:getTitle()'',
      ''  return "'' @ title @ ''"'',
      ''end'',
      [],
      ''function map:getDifficult()'',
      ''  return "Converted"'',
      ''end'',
      [],
      ''function map:getPorter()'',
      ''  return "osu-converter"'',
      ''end'',
      [],
      ''function map:getSong()'',
      ''  return "'' @ map (\<lambda>c. if c = CHR 0x5C then CHR ''/'' else c) song @ ''"'',
      ''end'',
      [],
      ''function map:getLength()'',
      ''  return '' @ len,
      ''end'',
      [],
      ''function map:getNotes()'',
      ''  -- (0 = none, 1 = normal, 2 = reverse, 3 = bad), (448 = up, 64 = down, 192 = left, 320 = right), speed, slider length, milliseconds to spawn'',
      ''  return {'']\<close>

definition lua_footer :: "string list" where
  "lua_footer = [''  }'', ''end'', [], ''return map'']"

fun join_lines :: "string list \<Rightarrow> string" where
  "join_lines [] = []"
| "join_lines [l] = l"
| "join_lines (l # m # ls) = l @ CHR 0x0A # join_lines (m # ls)"

definition generate_map_lua ::
    "nat \<Rightarrow> string \<Rightarrow> string \<Rightarrow> note_event list \<Rightarrow> int \<Rightarrow> error + string" where
  "generate_map_lua maxd title song notes keys =
     and_then (py_str maxd (chart_length notes)) (\<lambda>len.
     and_then (render_notes maxd keys notes) (\<lambda>lines.
       Inr (join_lines (lua_header title song len @ lines @ lua_footer))))"

section \<open>The driver\<close>

text \<open>
  The part of \<^verbatim>\<open>main\<close> between reading the input file and writing the output
  file; \<open>title\<close> is the base name of the input path without its extension.
  \<^verbatim>\<open>sorted(hitobjects, key=lambda x: x['time'])\<close> is a stable sort by
  ascending key, as \<^const>\<open>sort_key\<close> is.
\<close>

definition convert :: "nat \<Rightarrow> string \<Rightarrow> string \<Rightarrow> int \<Rightarrow> error + string" where
  "convert maxd osu_text title keys =
     and_then (parse_osu_hitobjects maxd osu_text) (\<lambda>parsed.
       case parsed of (hitobjects, meta) \<Rightarrow>
         let song_path = ''maps/'' @ title @ ''/song.mp3'';
             notes = sort_key note_time hitobjects
         in generate_map_lua maxd title song_path notes keys)"

section \<open>Notions used to state the properties\<close>

text \<open>
  The end point of a note in the words of the specification: the end time if
  present, else the time.
\<close>

definition endpoint_by_spec :: "note_event \<Rightarrow> int" where
  "endpoint_by_spec n = (case note_end_time n of Some e \<Rightarrow> e | None \<Rightarrow> note_time n)"

text \<open>What the reader guarantees about the end times of the notes it has collected.\<close>

definition end_times_ok :: "note_event list \<Rightarrow> bool" where
  "end_times_ok ns \<longleftrightarrow>
     list_all (\<lambda>n. case note_end_time n of None \<Rightarrow> True
                   | Some e \<Rightarrow> 0 \<le> e \<and> note_type n AND 128 \<noteq> 0) ns"

text \<open>
  Decimal numerals, stated without reference to the conversion functions of
  the program: \<open>numeral_of s i\<close> says that the string \<open>s\<close> is the decimal
  numeral of the integer \<open>i\<close>, that is, an optional minus sign followed by
  decimal digits without a superfluous leading zero whose value, read in base
  ten, is the magnitude of \<open>i\<close>.
\<close>

definition decimal_digit :: "char \<Rightarrow> bool" where
  "decimal_digit c \<longleftrightarrow> c \<in> set ''0123456789''"

definition digits_value :: "string \<Rightarrow> int" where
  "digits_value s = foldl (\<lambda>a c. 10 * a + (int (of_char c) - 48)) 0 s"

definition unsigned_numeral :: "string \<Rightarrow> int \<Rightarrow> bool" where
  "unsigned_numeral s v \<longleftrightarrow>
     s \<noteq> [] \<and> list_all decimal_digit s \<and> digits_value s = v \<and>
     (s = ''0'' \<or> hd s \<noteq> CHR ''0'')"

definition numeral_of :: "string \<Rightarrow> int \<Rightarrow> bool" where
  "numeral_of s i \<longleftrightarrow>
     (if i < 0 then s \<noteq> [] \<and> hd s = CHR ''-'' \<and> unsigned_numeral (tl s) (- i)
      else unsigned_numeral s i)"

text \<open>
  The integer \<open>i\<close> can be converted to a string under the digit limit \<open>maxd\<close>
  of the interpreter: there is no limit, or \<open>i\<close> has at most \<open>maxd\<close> digits.
\<close>

definition within_digit_limit :: "nat \<Rightarrow> int \<Rightarrow> bool" where
  "within_digit_limit maxd i \<longleftrightarrow> maxd = 0 \<or> \<bar>i\<bar> < 10 ^ maxd"

text \<open>
  A line of the note table as the specification describes it: four spaces and
  the tuple \<open>{1, destX, 400, 0, time}\<close> followed by a comma, where \<open>destX\<close> is
  the mapper's output for the note's x, \<open>time\<close> is the note's time, and both
  are written as decimal numerals. The line exists only when the mapper
  returns and the numbers are within the digit limit.
\<close>

definition note_line :: "nat \<Rightarrow> int \<Rightarrow> note_event \<Rightarrow> string \<Rightarrow> bool" where
  "note_line maxd keys n line \<longleftrightarrow>
     within_digit_limit maxd 400 \<and>
     (\<exists>ex sx st. map_column_x_to_Vectra_x (note_x n) keys 512 = Inr ex \<and>
        within_digit_limit maxd ex \<and> within_digit_limit maxd (note_time n) \<and>
        numeral_of sx ex \<and> numeral_of st (note_time n) \<and>
        line = ''    {1, '' @ sx @ '', 400, 0, '' @ st @ ''},'')"

text \<open>
  The generated text, character by character: the fixed functions with the
  title, the song path with every backslash replaced by a slash, the length
  numeral, and the note table with one line per entry of \<open>lines\<close>.
\<close>

abbreviation map_lua_text :: "string \<Rightarrow> string \<Rightarrow> string \<Rightarrow> string list \<Rightarrow> string" where
  \<open>map_lua_text title song slen lines \<equiv>
     ''map = { }\<newline>\<newline>''
     @ ''function map:getBackground()\<newline>  return "maps/'' @ title @ ''/bg.jpg"\<newline>end\<newline>\<newline>''
     @ ''function map:getTitle()\<newline>  return "'' @ title @ ''"\<newline>end\<newline>\<newline>''
     @ ''function map:getDifficult()\<newline>  return "Converted"\<newline>end\<newline>\<newline>''
     @ ''function map:getPorter()\<newline>  return "osu-converter"\<newline>end\<newline>\<newline>''
     @ ''function map:getSong()\<newline>  return "''
     @ map (\<lambda>c. if c = CHR 0x5C then CHR ''/'' else c) song @ ''"\<newline>end\<newline>\<newline>''
     @ ''function map:getLength()\<newline>  return '' @ slen @ ''\<newline>end\<newline>\<newline>''
     @ ''function map:getNotes()\<newline>''
     @ ''  -- (0 = none, 1 = normal, 2 = reverse, 3 = bad), (448 = up, 64 = down, 192 = left, 320 = right), speed, slider length, milliseconds to spawn\<newline>''
     @ ''  return {''
     @ concat (map (\<lambda>line. ''\<newline>'' @ line) lines)
     @ ''\<newline>  }\<newline>end\<newline>\<newline>return map''\<close>

text \<open>
  The center of column \<open>i\<close> in the words of the specification, the integer
  part of \<open>i * (512 / keys) + (512 / keys) / 2\<close>, read in exact arithmetic.
\<close>

definition exact_center :: "int \<Rightarrow> int \<Rightarrow> int" where
  "exact_center keys i = \<lfloor>of_int i * (512 / of_int keys) + (512 / of_int keys) / 2 :: rat\<rfloor>"

text \<open>
  The same expression with every operation rounded to binary64: the
  conversion of \<open>i\<close>, the two quotients, the product and the sum.
\<close>

definition binary64_center :: "int \<Rightarrow> int \<Rightarrow> int" where
  "binary64_center keys i =
     \<lfloor>fl (fl (fl (of_int i) * fl (512 / of_int keys)) + fl (fl (512 / of_int keys) / 2))\<rfloor>"

text \<open>One rounding to binary64 changes a normal number by a factor between these two.\<close>

definition round_lo :: rat where
  "round_lo = 1 - 1 / 2 ^ 53"

definition round_hi :: rat where
  "round_hi = 1 + 1 / 2 ^ 53"

section \<open>Sequencing of fallible steps\<close>

lemma and_then_Inr_iff:
  "and_then m f = Inr y \<longleftrightarrow> (\<exists>v. m = Inr v \<and> f v = Inr y)"
  by (cases m) (simp_all add: and_then_def)

lemma and_then_Inr [simp]: "and_then (Inr v) f = f v"
  by (simp add: and_then_def)

lemma and_then_Inl [simp]: "and_then (Inl e) f = Inl e"
  by (simp add: and_then_def)

section \<open>The chart length\<close>

lemma max_time_Max:
  "notes \<noteq> [] \<Longrightarrow> max_time notes = Max (end_or_time ` set notes)"
proof -
  assume ne: "notes \<noteq> []"
  then obtain n ns where eq: "notes = n # ns" by (cases "notes") auto
  have "fold max (map end_or_time ns) (end_or_time n) =
      Max (set (end_or_time n # map end_or_time ns))"
    by (rule Max.set_eq_fold [symmetric])
  then show ?thesis by (simp add: max_time_def eq)
qed

lemma end_or_time_spec:
  "note_end_time n \<noteq> Some 0 \<Longrightarrow> end_or_time n = endpoint_by_spec n"
  by (simp add: end_or_time_def endpoint_by_spec_def split: option.splits)

text \<open>
  Claim C1 says that the generated length is 0 for an empty note list. The
  code computes \<open>0 // 1000 + 1 = 1\<close> there, and the generated text returns 1.
\<close>

theorem chart_length_counterexample:
  "chart_length [] = 1 \<and> chart_length [] \<noteq> 0 \<and>
   generate_map_lua 4300 ''t'' ''s'' [] 4 =
     Inr (join_lines (lua_header ''t'' ''s'' ''1'' @ lua_footer))"
  by code_simp

text \<open>
  Claim C1, amended. The generated length is 1 for an empty note list. For a
  note list that is not empty and in which no note has an end time of 0, it
  is \<open>floor (maxEndpoint / 1000) + 1\<close>, where \<open>maxEndpoint\<close> is the maximum
  over all notes of the end time if present, else the time.
\<close>

theorem chart_length_amended:
  "chart_length [] = 1 \<and>
   (notes \<noteq> [] \<and> (\<forall>n \<in> set notes. note_end_time n \<noteq> Some 0) \<longrightarrow>
      chart_length notes = Max (endpoint_by_spec ` set notes) div 1000 + 1)"
proof (intro conjI impI)
  show "chart_length [] = 1" by (simp add: chart_length_def max_time_def)
next
  assume h: "notes \<noteq> [] \<and> (\<forall>n \<in> set notes. note_end_time n \<noteq> Some 0)"
  then have "end_or_time ` set notes = endpoint_by_spec ` set notes"
    by (intro image_cong refl end_or_time_spec) auto
  with h show "chart_length notes = Max (endpoint_by_spec ` set notes) div 1000 + 1"
    by (simp add: chart_length_def max_time_Max)
qed

theorem chart_length_amended_witness:
  "chart_length [] = 1 \<and>
   chart_length [\<lparr>note_x = 0, note_time = 1000, note_type = 128, note_end_time = Some 61500\<rparr>,
                 \<lparr>note_x = 0, note_time = 2000, note_type = 1, note_end_time = None\<rparr>] = 62"
proof -
  let ?ns = "[\<lparr>note_x = 0, note_time = 1000, note_type = 128, note_end_time = Some 61500\<rparr>,
              \<lparr>note_x = 0, note_time = 2000, note_type = 1, note_end_time = None\<rparr>]"
  have "?ns \<noteq> [] \<and> (\<forall>n \<in> set ?ns. note_end_time n \<noteq> Some 0)" by simp
  with chart_length_amended [of ?ns]
  have "chart_length [] = 1 \<and>
      chart_length ?ns = Max (endpoint_by_spec ` set ?ns) div 1000 + 1"
    by blast
  then show ?thesis by (simp add: endpoint_by_spec_def)
qed

section \<open>The chart reader\<close>

text \<open>
  Claim C2 says that the reader raises no error on any input text. A line of
  the hit-objects section with five fields whose first field is not an integer
  literal makes \<^verbatim>\<open>int(parts[0])\<close> raise ValueError, which nothing catches.
\<close>

theorem reader_raises_on_non_integer_field:
  "parse_osu_hitobjects maxd ''[HitObjects]\<newline>64.5,192,1000,1,0'' = Inl ValueError"
  by code_simp

lemma is_digit_not_int_space: "is_digit c \<Longrightarrow> \<not> is_int_space c"
  by (auto simp: is_digit_def is_int_space_def)

lemma is_digit_not_sign: "is_digit c \<Longrightarrow> c \<noteq> CHR ''-'' \<and> c \<noteq> CHR ''+''"
  by (auto simp: is_digit_def)

lemma digit_val_nonneg: "is_digit c \<Longrightarrow> 0 \<le> digit_val c"
  by (auto simp: is_digit_def digit_val_def)

lemma parse_digits_nonneg:
  "parse_digits acc n s = Some (v, m) \<Longrightarrow> 0 \<le> acc \<Longrightarrow> 0 \<le> v"
  by (induction acc n s rule: parse_digits.induct)
     (auto split: if_splits simp: digit_val_nonneg)

lemma py_int_digits_nonneg:
  assumes "s \<noteq> []" and "\<forall>c \<in> set s. is_digit c" and "py_int maxd s = Inr v"
  shows "0 \<le> v"
proof -
  from assms(1,2) have hd: "is_digit (hd s)" and lst: "is_digit (last s)" by auto
  from assms(1) hd have d1: "dropWhile is_int_space s = s"
    by (cases s) (auto simp: is_digit_not_int_space)
  from assms(1) lst have d2: "dropWhile is_int_space (rev s) = rev s"
    by (cases "rev s") (auto simp: is_digit_not_int_space last_rev hd_rev)
  from hd have sg: "hd s \<noteq> CHR ''-''" "hd s \<noteq> CHR ''+''"
    using is_digit_not_sign by blast+
  from assms(3) obtain n where "parse_digits 0 0 s = Some (v, n)"
    by (auto simp: py_int_def d1 d2 sg Let_def assms(1) split: option.splits if_splits)
  then show ?thesis by (rule parse_digits_nonneg) simp
qed

lemma match_end_time_digits:
  "match_end_time obj = Some g \<Longrightarrow> g \<noteq> [] \<and> (\<forall>c \<in> set g. is_digit c)"
  by (auto simp: match_end_time_def Let_def split: if_splits dest: set_takeWhileD)

lemma hold_end_time_Some:
  assumes "hold_end_time maxd type_val parts = Inr (Some e)"
  shows "0 \<le> e \<and> type_val AND 128 \<noteq> 0"
proof -
  from assms have flag: "type_val AND 128 \<noteq> 0"
    by (auto simp: hold_end_time_def split: if_splits)
  from assms flag obtain g where g: "match_end_time (parts ! 5) = Some g"
    and v: "py_int maxd g = Inr e"
    by (auto simp: hold_end_time_def split: if_splits option.splits sum.splits)
  from match_end_time_digits [OF g] v have "0 \<le> e"
    using py_int_digits_nonneg by blast
  with flag show ?thesis by simp
qed

lemma parse_line_end_times:
  assumes "parse_line maxd (sec, hs, tps) raw = Inr (sec', hs', tps')" and "end_times_ok hs"
  shows "end_times_ok hs'"
  using assms
  by (auto simp: parse_line_def Let_def end_times_ok_def and_then_Inr_iff
           split: if_splits option.splits dest: hold_end_time_Some)

lemma parse_lines_end_times:
  "parse_lines maxd st lns = Inr st' \<Longrightarrow> end_times_ok (fst (snd st))
     \<Longrightarrow> end_times_ok (fst (snd st'))"
proof (induction lns arbitrary: st)
  case Nil
  then show ?case by simp
next
  case (Cons l lns)
  from Cons.prems(1) obtain st1 where s1: "parse_line maxd st l = Inr st1"
    and s2: "parse_lines maxd st1 lns = Inr st'"
    by (auto simp: and_then_Inr_iff)
  obtain a b c where st: "st = (a, b, c)" by (cases st)
  obtain a1 b1 c1 where st1: "st1 = (a1, b1, c1)" by (cases st1)
  from s1 Cons.prems(2) have "end_times_ok (fst (snd st1))"
    unfolding st st1 using parse_line_end_times by fastforce
  with s2 show ?case by (rule Cons.IH)
qed

text \<open>
  Claim C3 says that an end time, when present, is at least the time. The
  reader takes the two numbers from different fields of the line and never
  compares them: here the time is 1000 and the end time 500.
\<close>

theorem end_time_below_time_counterexample:
  "parse_osu_hitobjects 4300 ''[HitObjects]\<newline>0,192,1000,128,0,500:0:0:0:0:'' =
     Inr ([\<lparr>note_x = 0, note_time = 1000, note_type = 128, note_end_time = Some 500\<rparr>],
          \<lparr>timing_points = []\<rparr>)"
  by code_simp

text \<open>
  Claim C3, amended. For every note that the reader produces, an end time,
  when present, is at least 0, and the type of the note has the hold bit 128
  set.
\<close>

theorem end_time_nonnegative:
  assumes "parse_osu_hitobjects maxd osu_text = Inr (notes, meta)"
  shows "\<forall>n \<in> set notes. \<forall>e. note_end_time n = Some e \<longrightarrow>
           0 \<le> e \<and> note_type n AND 128 \<noteq> 0"
proof -
  from assms obtain sec tps
    where "parse_lines maxd (None, [], []) (splitlines osu_text) = Inr (sec, notes, tps)"
    by (auto simp: parse_osu_hitobjects_def and_then_Inr_iff split: prod.splits)
  from parse_lines_end_times [OF this] have "end_times_ok notes"
    by (simp add: end_times_ok_def)
  then show ?thesis
    by (auto simp: end_times_ok_def list_all_iff split: option.splits)
qed

theorem end_time_nonnegative_witness:
  "parse_osu_hitobjects 4300 ''[HitObjects]\<newline>64,192,1000,128,0,2500:0:0:0:0:'' =
     Inr ([\<lparr>note_x = 64, note_time = 1000, note_type = 128, note_end_time = Some 2500\<rparr>],
          \<lparr>timing_points = []\<rparr>) \<and>
   (0::int) \<le> 2500 \<and> (128::int) AND 128 \<noteq> 0"
proof -
  let ?n = "\<lparr>note_x = 64, note_time = 1000, note_type = 128, note_end_time = Some 2500\<rparr>"
  have p: "parse_osu_hitobjects 4300 ''[HitObjects]\<newline>64,192,1000,128,0,2500:0:0:0:0:'' =
     Inr ([?n], \<lparr>timing_points = []\<rparr>)"
    by code_simp
  from end_time_nonnegative [OF p] have "(0::int) \<le> 2500 \<and> note_type ?n AND 128 \<noteq> 0"
    by simp
  with p show ?thesis by simp
qed

lemma parse_lines_append:
  "parse_lines maxd st (a @ b) =
     and_then (parse_lines maxd st a) (\<lambda>st'. parse_lines maxd st' b)"
  by (induction a arbitrary: st) (auto simp: and_then_def split: sum.splits)

text \<open>
  Claim C7. Let a line stand inside the hit-objects section of a text: the
  lines before it leave the reader in the section \<^verbatim>\<open>HitObjects\<close>, and the line
  is not itself a section header. If it has fewer than 5 comma-separated
  fields, the reader's state after it is the state before it, so it adds no
  note, and the text parses as the text without that line does: the lines
  after it are read as if it were absent.
\<close>

theorem short_hitobject_line_skipped:
  assumes "splitlines text = before @ raw # after"
    and "splitlines text' = before @ after"
    and "parse_lines maxd (None, [], []) before = Inr (Some ''HitObjects'', hitobjects, tps)"
    and "\<not> (startswith (strip raw) ''['' \<and> endswith (strip raw) '']'')"
    and "length (split_comma (strip raw)) < 5"
  shows "parse_line maxd (Some ''HitObjects'', hitobjects, tps) raw =
           Inr (Some ''HitObjects'', hitobjects, tps) \<and>
         parse_osu_hitobjects maxd text = parse_osu_hitobjects maxd text'"
proof -
  from assms(4,5) have one: "parse_line maxd (Some ''HitObjects'', hitobjects, tps) raw =
      Inr (Some ''HitObjects'', hitobjects, tps)"
    by (auto simp: parse_line_def Let_def)
  then have "parse_lines maxd (None, [], []) (before @ raw # after) =
      parse_lines maxd (None, [], []) (before @ after)"
    by (simp add: parse_lines_append assms(3))
  with one show ?thesis
    by (simp add: parse_osu_hitobjects_def assms(1,2))
qed

theorem short_hitobject_line_skipped_witness:
  "parse_line 4300 (Some ''HitObjects'',
       [\<lparr>note_x = 64, note_time = 1000, note_type = 1, note_end_time = None\<rparr>], []) ''1,2,3'' =
     Inr (Some ''HitObjects'',
       [\<lparr>note_x = 64, note_time = 1000, note_type = 1, note_end_time = None\<rparr>], []) \<and>
   parse_osu_hitobjects 4300
     ''[HitObjects]\<newline>64,192,1000,1,0\<newline>1,2,3\<newline>192,192,500,1,0'' =
   parse_osu_hitobjects 4300 ''[HitObjects]\<newline>64,192,1000,1,0\<newline>192,192,500,1,0''"
proof -
  have a: "splitlines ''[HitObjects]\<newline>64,192,1000,1,0\<newline>1,2,3\<newline>192,192,500,1,0'' =
      [''[HitObjects]'', ''64,192,1000,1,0''] @ ''1,2,3'' # [''192,192,500,1,0'']"
    by code_simp
  have b: "splitlines ''[HitObjects]\<newline>64,192,1000,1,0\<newline>192,192,500,1,0'' =
      [''[HitObjects]'', ''64,192,1000,1,0''] @ [''192,192,500,1,0'']"
    by code_simp
  have c: "parse_lines 4300 (None, [], []) [''[HitObjects]'', ''64,192,1000,1,0''] =
      Inr (Some ''HitObjects'',
        [\<lparr>note_x = 64, note_time = 1000, note_type = 1, note_end_time = None\<rparr>], [])"
    by code_simp
  have d: "\<not> (startswith (strip ''1,2,3'') ''['' \<and> endswith (strip ''1,2,3'') '']'')"
    by code_simp
  have e: "length (split_comma (strip ''1,2,3'')) < 5"
    by code_simp
  show ?thesis
    by (rule short_hitobject_line_skipped [OF a b c d e])
qed

section \<open>Decimal numerals\<close>

text \<open>
  The conversion of an integer to a string produces the decimal numeral of the
  integer, and it succeeds exactly when the integer is within the digit limit.
\<close>

declare int_digits.simps [simp del]

lemma digit_char:
  assumes "0 \<le> d" and "d < 10"
  shows "decimal_digit (''0123456789'' ! nat d) \<and>
         int (of_char (''0123456789'' ! nat d)) - 48 = d \<and>
         (''0123456789'' ! nat d = CHR ''0'' \<longleftrightarrow> d = 0)"
proof -
  from assms have "d = 0 \<or> d = 1 \<or> d = 2 \<or> d = 3 \<or> d = 4 \<or> d = 5 \<or> d = 6 \<or> d = 7
      \<or> d = 8 \<or> d = 9" by arith
  then show ?thesis
    by (elim disjE) (simp_all add: decimal_digit_def)
qed

lemma char_digit:
  assumes "decimal_digit c"
  shows "0 \<le> int (of_char c) - 48 \<and> int (of_char c) - 48 < 10 \<and>
         ''0123456789'' ! nat (int (of_char c) - 48) = c \<and>
         (int (of_char c) - 48 = 0 \<longleftrightarrow> c = CHR ''0'')"
  using assms by (auto simp: decimal_digit_def)

lemma digits_value_snoc:
  "digits_value (xs @ [c]) = 10 * digits_value xs + (int (of_char c) - 48)"
  by (simp add: digits_value_def)

lemma digits_value_Nil [simp]: "digits_value [] = 0"
  by (simp add: digits_value_def)

lemma int_digits_small: "n < 10 \<Longrightarrow> int_digits n = [''0123456789'' ! nat n]"
  by (subst int_digits.simps) simp

lemma int_digits_large:
  "\<not> n < 10 \<Longrightarrow> int_digits n = int_digits (n div 10) @ [''0123456789'' ! nat (n mod 10)]"
  by (subst int_digits.simps) simp

lemma int_digits_not_Nil: "int_digits n \<noteq> []"
  by (cases "n < 10") (simp_all add: int_digits_small int_digits_large)

lemma int_digits_all: "0 \<le> n \<Longrightarrow> list_all decimal_digit (int_digits n)"
proof (induction n rule: int_digits.induct)
  case (1 n)
  show ?case
  proof (cases "n < 10")
    case True
    with 1 show ?thesis by (simp add: int_digits_small digit_char)
  next
    case False
    with "1.prems" have "0 \<le> n div 10" "0 \<le> n mod 10" "n mod 10 < 10" by simp_all
    with 1 False show ?thesis by (simp add: int_digits_large digit_char)
  qed
qed

lemma int_digits_value: "0 \<le> n \<Longrightarrow> digits_value (int_digits n) = n"
proof (induction n rule: int_digits.induct)
  case (1 n)
  show ?case
  proof (cases "n < 10")
    case True
    with 1 show ?thesis
      using digits_value_snoc [of "[]"] by (simp add: int_digits_small digit_char)
  next
    case False
    with "1.prems" have "0 \<le> n div 10" "0 \<le> n mod 10" "n mod 10 < 10" by simp_all
    with 1 False show ?thesis by (simp add: int_digits_large digits_value_snoc digit_char)
  qed
qed

lemma int_digits_hd: "1 \<le> n \<Longrightarrow> hd (int_digits n) \<noteq> CHR ''0''"
proof (induction n rule: int_digits.induct)
  case (1 n)
  show ?case
  proof (cases "n < 10")
    case True
    with "1.prems" have "''0123456789'' ! nat n \<noteq> CHR ''0''"
      using digit_char [of n] by auto
    then show ?thesis unfolding int_digits_small [OF True] list.sel .
  next
    case False
    then have "1 \<le> n div 10" by simp
    with 1 False show ?thesis by (simp add: int_digits_large int_digits_not_Nil)
  qed
qed

lemma int_digits_numeral: "0 \<le> n \<Longrightarrow> unsigned_numeral (int_digits n) n"
proof -
  assume n: "0 \<le> n"
  have "int_digits n = ''0'' \<or> hd (int_digits n) \<noteq> CHR ''0''"
  proof (cases "n = 0")
    case True
    then show ?thesis by (simp add: int_digits_small)
  next
    case False
    with n have "1 \<le> n" by simp
    then show ?thesis by (simp add: int_digits_hd)
  qed
  with n show ?thesis
    by (simp add: unsigned_numeral_def int_digits_not_Nil int_digits_all int_digits_value)
qed

lemma digits_value_nonneg: "list_all decimal_digit s \<Longrightarrow> 0 \<le> digits_value s"
proof (induction s rule: rev_induct)
  case Nil
  then show ?case by simp
next
  case (snoc c s)
  then show ?case using char_digit [of c] by (simp add: digits_value_snoc)
qed

lemma digits_value_pos:
  "s \<noteq> [] \<Longrightarrow> list_all decimal_digit s \<Longrightarrow> hd s \<noteq> CHR ''0'' \<Longrightarrow> 1 \<le> digits_value s"
proof (induction s rule: rev_induct)
  case Nil
  then show ?case by simp
next
  case (snoc c s)
  show ?case
  proof (cases "s = []")
    case True
    with snoc.prems show ?thesis
      using char_digit [of c] digits_value_snoc [of "[]" c] by auto
  next
    case False
    with snoc have "1 \<le> digits_value s" by simp
    moreover from snoc.prems have "0 \<le> int (of_char c) - 48"
      using char_digit [of c] by simp
    ultimately show ?thesis by (simp add: digits_value_snoc)
  qed
qed

lemma numeral_unique:
  "s \<noteq> [] \<Longrightarrow> list_all decimal_digit s \<Longrightarrow> s = ''0'' \<or> hd s \<noteq> CHR ''0''
     \<Longrightarrow> s = int_digits (digits_value s)"
proof (induction s rule: rev_induct)
  case Nil
  then show ?case by simp
next
  case (snoc c s)
  from snoc.prems have c: "decimal_digit c" by simp
  note cd = char_digit [OF c]
  show ?case
  proof (cases "s = []")
    case True
    with cd show ?thesis
      using digits_value_snoc [of "[]" c] by (simp add: int_digits_small)
  next
    case False
    with snoc.prems have hd: "hd s \<noteq> CHR ''0''" and all: "list_all decimal_digit s"
      by auto
    from snoc.IH [OF False all] hd have ih: "s = int_digits (digits_value s)" by simp
    from digits_value_pos [OF False all hd] have v1: "1 \<le> digits_value s" .
    let ?d = "int (of_char c) - 48"
    let ?v = "10 * digits_value s + ?d"
    from v1 cd have big: "\<not> ?v < 10" by simp
    from cd have dv: "?v div 10 = digits_value s" "?v mod 10 = ?d" by simp_all
    have "int_digits ?v = int_digits (digits_value s) @ [c]"
      using int_digits_large [OF big] cd by (simp add: dv)
    with ih show ?thesis by (simp add: digits_value_snoc)
  qed
qed

lemma unsigned_numeral_iff: "unsigned_numeral s v \<longleftrightarrow> 0 \<le> v \<and> s = int_digits v"
proof
  assume u: "unsigned_numeral s v"
  then have "s = int_digits (digits_value s)"
    by (intro numeral_unique) (simp_all add: unsigned_numeral_def)
  moreover from u have v: "digits_value s = v" and "list_all decimal_digit s"
    by (simp_all add: unsigned_numeral_def)
  moreover from this(2) have "0 \<le> digits_value s" by (rule digits_value_nonneg)
  ultimately show "0 \<le> v \<and> s = int_digits v" by simp
next
  assume "0 \<le> v \<and> s = int_digits v"
  then show "unsigned_numeral s v" by (simp add: int_digits_numeral)
qed

lemma numeral_of_iff: "numeral_of s i \<longleftrightarrow> s = show_int i"
  by (cases s) (auto simp: numeral_of_def show_int_def unsigned_numeral_iff int_digits_not_Nil)

lemma int_digits_length:
  "0 \<le> n \<Longrightarrow> 0 < m \<Longrightarrow> m < length (int_digits n) \<longleftrightarrow> 10 ^ m \<le> n"
proof (induction n arbitrary: m rule: int_digits.induct)
  case (1 n)
  show ?case
  proof (cases "n < 10")
    case True
    have "(10::int) ^ 1 \<le> 10 ^ m" using "1.prems"(2) by (intro power_increasing) simp_all
    with True have "\<not> 10 ^ m \<le> n" by simp
    with True "1.prems" show ?thesis by (simp add: int_digits_small)
  next
    case False
    with "1.prems" have n10: "0 \<le> n div 10" by simp
    show ?thesis
    proof (cases "m = 1")
      case True
      have "1 \<le> length (int_digits (n div 10))"
        using int_digits_not_Nil [of "n div 10"] by (cases "int_digits (n div 10)") simp_all
      with True False show ?thesis by (simp add: int_digits_large int_digits_not_Nil)
    next
      case m: False
      with "1.prems"(2) have m1: "0 < m - 1" by simp
      from "1.IH" [OF False n10 m1]
      have "m - 1 < length (int_digits (n div 10)) \<longleftrightarrow> 10 ^ (m - 1) \<le> n div 10" .
      moreover have "10 ^ (m - 1) \<le> n div 10 \<longleftrightarrow> 10 * 10 ^ (m - 1) \<le> n"
        by presburger
      moreover have "(10::int) * 10 ^ (m - 1) = 10 ^ m"
        using "1.prems"(2) by (cases m) simp_all
      ultimately show ?thesis
        using False m1 by (simp add: int_digits_large) linarith
    qed
  qed
qed

lemma py_str_iff:
  "py_str maxd i = Inr s \<longleftrightarrow> within_digit_limit maxd i \<and> numeral_of s i"
proof (cases "maxd = 0")
  case True
  then show ?thesis by (auto simp: py_str_def within_digit_limit_def numeral_of_iff)
next
  case False
  then have "maxd < length (int_digits \<bar>i\<bar>) \<longleftrightarrow> 10 ^ maxd \<le> \<bar>i\<bar>"
    by (intro int_digits_length) simp_all
  with False show ?thesis
    by (auto simp: py_str_def within_digit_limit_def numeral_of_iff)
qed

lemma show_int_consts:
  "show_int 1 = ''1''" "show_int 0 = ''0''" "show_int 400 = ''400''"
  by code_simp+

lemma within_digit_limit_small [simp]:
  "within_digit_limit maxd 0" "within_digit_limit maxd 1"
proof -
  have "maxd = 0 \<or> (1::int) < 10 ^ maxd"
  proof (cases "maxd = 0")
    case False
    then have "(1::int) < 10 ^ maxd" by (intro one_less_power) simp_all
    then show ?thesis by simp
  qed simp
  then show "within_digit_limit maxd 0" "within_digit_limit maxd 1"
    by (auto simp: within_digit_limit_def)
qed

lemma within_digit_limit_le:
  assumes "\<bar>i\<bar> < 10 ^ k" and "k \<le> maxd"
  shows "within_digit_limit maxd i"
proof -
  have "(10::int) ^ k \<le> 10 ^ maxd" using assms(2) by (intro power_increasing) simp_all
  with assms(1) have "\<bar>i\<bar> < 10 ^ maxd" by linarith
  then show ?thesis by (simp add: within_digit_limit_def)
qed

section \<open>The output generator and the driver\<close>

lemma join_lines_append:
  "a \<noteq> [] \<Longrightarrow> b \<noteq> [] \<Longrightarrow> join_lines (a @ b) = join_lines a @ CHR 0x0A # join_lines b"
proof (induction a rule: join_lines.induct)
  case 1
  then show ?case by simp
next
  case (2 l)
  then show ?case by (cases b) simp_all
next
  case (3 l m ls)
  then show ?case by simp
qed

lemma join_lines_table:
  "hs \<noteq> [] \<Longrightarrow> b \<noteq> [] \<Longrightarrow>
   join_lines (hs @ lines @ b) =
     join_lines hs @ concat (map (\<lambda>line. CHR 0x0A # line) lines) @ CHR 0x0A # join_lines b"
proof (induction lines arbitrary: hs)
  case Nil
  then show ?case by (simp add: join_lines_append)
next
  case (Cons l ls)
  have "join_lines (hs @ (l # ls) @ b) = join_lines ((hs @ [l]) @ ls @ b)" by simp
  also have "\<dots> = join_lines (hs @ [l]) @ concat (map (\<lambda>line. CHR 0x0A # line) ls)
      @ CHR 0x0A # join_lines b"
    using Cons.prems by (intro Cons.IH) simp_all
  also have "join_lines (hs @ [l]) = join_lines hs @ CHR 0x0A # l"
    using Cons.prems(1) by (simp add: join_lines_append)
  finally show ?case by simp
qed

lemma generated_text:
  "join_lines (lua_header title song slen @ lines @ lua_footer) = map_lua_text title song slen lines"
proof -
  have h: "lua_header title song slen \<noteq> []" by (simp add: lua_header_def)
  have f: "lua_footer \<noteq> []" by (simp add: lua_footer_def)
  show ?thesis
    unfolding join_lines_table [OF h f]
    by (simp add: lua_header_def lua_footer_def)
qed

lemma format_tuple_iff:
  "format_tuple maxd (1, ex, 400, 0, t) = Inr line \<longleftrightarrow>
     within_digit_limit maxd 400 \<and> within_digit_limit maxd ex \<and> within_digit_limit maxd t \<and>
     (\<exists>sx st. numeral_of sx ex \<and> numeral_of st t \<and>
        line = ''    {1, '' @ sx @ '', 400, 0, '' @ st @ ''},'')"
  by (auto simp: format_tuple_def and_then_Inr_iff py_str_iff numeral_of_iff show_int_consts)

lemma note_line_iff:
  "note_line maxd keys n line \<longleftrightarrow>
     (\<exists>ex. map_column_x_to_Vectra_x (note_x n) keys 512 = Inr ex \<and>
           format_tuple maxd (1, ex, 400, 0, note_time n) = Inr line)"
  by (auto simp: note_line_def format_tuple_iff)

lemma render_notes_iff:
  "render_notes maxd keys notes = Inr lines \<longleftrightarrow>
     list_all2 (note_line maxd keys) notes lines"
proof (induction "notes" arbitrary: lines)
  case Nil
  then show ?case by auto
next
  case (Cons n ns)
  show ?case
    by (auto simp: and_then_Inr_iff note_tuple_def Cons.IH list_all2_Cons1 note_line_iff)
qed

lemma generate_map_lua_iff:
  "generate_map_lua maxd title song notes keys = Inr out \<longleftrightarrow>
     within_digit_limit maxd (chart_length notes) \<and>
     (\<exists>slen lines. numeral_of slen (chart_length notes) \<and>
        list_all2 (note_line maxd keys) notes lines \<and>
        out = map_lua_text title song slen lines)"
proof -
  define T where "T slen lines = map_lua_text title song slen lines" for slen lines
  have g: "join_lines (lua_header title song slen @ lines @ lua_footer) = T slen lines"
    for slen lines
    unfolding T_def by (rule generated_text)
  have "generate_map_lua maxd title song notes keys = Inr out \<longleftrightarrow>
     within_digit_limit maxd (chart_length notes) \<and>
     (\<exists>slen lines. numeral_of slen (chart_length notes) \<and>
        list_all2 (note_line maxd keys) notes lines \<and> out = T slen lines)"
    unfolding generate_map_lua_def and_then_Inr_iff py_str_iff render_notes_iff g
    by auto
  then show ?thesis unfolding T_def .
qed

text \<open>
  Claim C8. The generator returns a text exactly when the length and the
  numbers of every note are within the digit limit and the mapper returns for
  every note, and then the text is the fixed frame around a note table that
  has exactly one line per note, in the order of the notes. The line of a
  note is \<^verbatim>\<open>    {1, destX, 400, 0, time},\<close> where \<open>destX\<close> is the decimal numeral
  of the mapper's output for the note's x and \<open>time\<close> the decimal numeral of
  the note's time. The first component is always 1, the third always 400 and
  the fourth always 0; the type and the end time of the note play no part.
\<close>

theorem generator_renders_each_note:
  "generate_map_lua maxd title song notes keys = Inr out \<longleftrightarrow>
     within_digit_limit maxd (chart_length notes) \<and>
     (\<exists>slen lines. numeral_of slen (chart_length notes) \<and>
        list_all2 (note_line maxd keys) notes lines \<and>
        out = map_lua_text title song slen lines)"
  by (rule generate_map_lua_iff)

theorem generator_renders_each_note_witness:
  "generate_map_lua 4300 ''t'' ''s''
     [\<lparr>note_x = 128, note_time = 1000, note_type = 128, note_end_time = Some 2000\<rparr>] 4 =
   Inr (map_lua_text ''t'' ''s'' ''3'' [''    {1, 192, 400, 0, 1000},''])"
proof -
  let ?n = "\<lparr>note_x = 128, note_time = 1000, note_type = 128, note_end_time = Some 2000\<rparr>"
  have l: "chart_length [?n] = 3" by code_simp
  have m: "map_column_x_to_Vectra_x 128 4 512 = Inr 192" by code_simp
  have s: "show_int 3 = ''3''" "show_int 192 = ''192''" "show_int 1000 = ''1000''"
    by code_simp+
  have w: "within_digit_limit 4300 3" "within_digit_limit 4300 400"
    "within_digit_limit 4300 192" "within_digit_limit 4300 1000"
    by (rule within_digit_limit_le [of _ 4], simp, simp)+
  have n: "note_line 4300 4 ?n ''    {1, 192, 400, 0, 1000},''"
    unfolding note_line_def
    by (intro conjI exI [of _ 192] exI [of _ "''192''"] exI [of _ "''1000''"])
       (simp_all add: m w numeral_of_iff s)
  show ?thesis
    unfolding generator_renders_each_note l
    by (intro conjI exI [of _ "''3''"] exI [of _ "[''    {1, 192, 400, 0, 1000},'']"])
       (simp_all add: w numeral_of_iff s n)
qed

lemma stable_sort_unique:
  assumes "mset ys = mset xs" and "sorted (map f ys)"
    and "\<forall>t. filter (\<lambda>n. f n = t) ys = filter (\<lambda>n. f n = t) xs"
  shows "sort_key f xs = ys"
proof (rule properties_for_sort_key [OF assms(1) _ assms(2)])
  fix k
  have "(\<lambda>x. f k = f x) = (\<lambda>n. f n = f k)" by auto
  with assms(3) show "filter (\<lambda>x. f k = f x) ys = filter (\<lambda>x. f k = f x) xs" by simp
qed

text \<open>
  Claim C9. When the reader returns a note list, the driver returns a text
  exactly when the text is the generated text of an arrangement \<open>ordered\<close> of
  the parsed notes with these properties: it has the same notes with the same
  multiplicities, its times are ascending, and the notes of any one time
  stand in the order they had in the parsed list. The lines of the note table
  are the lines of \<open>ordered\<close>, in that order.
\<close>

theorem driver_sorts_notes_by_time:
  assumes "parse_osu_hitobjects maxd osu_text = Inr (hitobjects, meta)"
  shows "convert maxd osu_text title keys = Inr out \<longleftrightarrow>
     (\<exists>ordered slen lines.
        mset ordered = mset hitobjects \<and>
        sorted (map note_time ordered) \<and>
        (\<forall>t. filter (\<lambda>n. note_time n = t) ordered = filter (\<lambda>n. note_time n = t) hitobjects) \<and>
        within_digit_limit maxd (chart_length ordered) \<and>
        numeral_of slen (chart_length ordered) \<and>
        list_all2 (note_line maxd keys) ordered lines \<and>
        out = map_lua_text title (''maps/'' @ title @ ''/song.mp3'') slen lines)"
proof -
  let ?s = "sort_key note_time hitobjects"
  have c: "convert maxd osu_text title keys =
           generate_map_lua maxd title (''maps/'' @ title @ ''/song.mp3'') ?s keys"
    by (simp add: convert_def assms Let_def)
  have s: "mset ?s = mset hitobjects \<and> sorted (map note_time ?s) \<and>
      (\<forall>t. filter (\<lambda>n. note_time n = t) ?s = filter (\<lambda>n. note_time n = t) hitobjects)"
    by (simp add: sort_key_stable)
  define T where "T slen lines = map_lua_text title (''maps/'' @ title @ ''/song.mp3'') slen lines"
    for slen lines
  have g: "generate_map_lua maxd title (''maps/'' @ title @ ''/song.mp3'') ys keys = Inr out \<longleftrightarrow>
     within_digit_limit maxd (chart_length ys) \<and>
     (\<exists>slen lines. numeral_of slen (chart_length ys) \<and>
        list_all2 (note_line maxd keys) ys lines \<and> out = T slen lines)" for ys
    unfolding T_def by (rule generate_map_lua_iff)
  have "convert maxd osu_text title keys = Inr out \<longleftrightarrow>
     (\<exists>ordered slen lines.
        mset ordered = mset hitobjects \<and>
        sorted (map note_time ordered) \<and>
        (\<forall>t. filter (\<lambda>n. note_time n = t) ordered = filter (\<lambda>n. note_time n = t) hitobjects) \<and>
        within_digit_limit maxd (chart_length ordered) \<and>
        numeral_of slen (chart_length ordered) \<and>
        list_all2 (note_line maxd keys) ordered lines \<and>
        out = T slen lines)"
  proof
    assume "convert maxd osu_text title keys = Inr out"
    then show "\<exists>ordered slen lines.
        mset ordered = mset hitobjects \<and>
        sorted (map note_time ordered) \<and>
        (\<forall>t. filter (\<lambda>n. note_time n = t) ordered = filter (\<lambda>n. note_time n = t) hitobjects) \<and>
        within_digit_limit maxd (chart_length ordered) \<and>
        numeral_of slen (chart_length ordered) \<and>
        list_all2 (note_line maxd keys) ordered lines \<and>
        out = T slen lines"
      unfolding c g using s by blast
  next
    assume "\<exists>ordered slen lines.
        mset ordered = mset hitobjects \<and>
        sorted (map note_time ordered) \<and>
        (\<forall>t. filter (\<lambda>n. note_time n = t) ordered = filter (\<lambda>n. note_time n = t) hitobjects) \<and>
        within_digit_limit maxd (chart_length ordered) \<and>
        numeral_of slen (chart_length ordered) \<and>
        list_all2 (note_line maxd keys) ordered lines \<and>
        out = T slen lines"
    then obtain ordered slen lines where o: "mset ordered = mset hitobjects"
      "sorted (map note_time ordered)"
      "\<forall>t. filter (\<lambda>n. note_time n = t) ordered = filter (\<lambda>n. note_time n = t) hitobjects"
      and r: "within_digit_limit maxd (chart_length ordered)"
        "numeral_of slen (chart_length ordered)"
        "list_all2 (note_line maxd keys) ordered lines"
        "out = T slen lines"
      by blast
    from o have "?s = ordered" by (rule stable_sort_unique)
    with r show "convert maxd osu_text title keys = Inr out"
      unfolding c g by blast
  qed
  then show ?thesis unfolding T_def .
qed

theorem driver_sorts_notes_by_time_witness:
  "convert 4300 ''[HitObjects]\<newline>0,192,1000,1,0\<newline>480,192,500,1,0\<newline>200,192,500,1,0'' ''song'' 4 =
     Inr (map_lua_text ''song'' ''maps/song/song.mp3'' ''2''
        [''    {1, 448, 400, 0, 500},'', ''    {1, 192, 400, 0, 500},'',
         ''    {1, 64, 400, 0, 1000},''])"
proof -
  let ?t = "''[HitObjects]\<newline>0,192,1000,1,0\<newline>480,192,500,1,0\<newline>200,192,500,1,0''"
  let ?a = "\<lparr>note_x = 0, note_time = 1000, note_type = 1, note_end_time = None\<rparr>"
  let ?b = "\<lparr>note_x = 480, note_time = 500, note_type = 1, note_end_time = None\<rparr>"
  let ?c = "\<lparr>note_x = 200, note_time = 500, note_type = 1, note_end_time = None\<rparr>"
  have p: "parse_osu_hitobjects 4300 ?t = Inr ([?a, ?b, ?c], \<lparr>timing_points = []\<rparr>)"
    by code_simp
  have l: "chart_length [?b, ?c, ?a] = 2" by code_simp
  have m: "map_column_x_to_Vectra_x 480 4 512 = Inr 448"
    "map_column_x_to_Vectra_x 200 4 512 = Inr 192"
    "map_column_x_to_Vectra_x 0 4 512 = Inr 64"
    by code_simp+
  have s: "show_int 2 = ''2''" "show_int 448 = ''448''" "show_int 192 = ''192''"
    "show_int 64 = ''64''" "show_int 500 = ''500''" "show_int 1000 = ''1000''"
    by code_simp+
  have w: "within_digit_limit 4300 2" "within_digit_limit 4300 400"
    "within_digit_limit 4300 448" "within_digit_limit 4300 192"
    "within_digit_limit 4300 64" "within_digit_limit 4300 500"
    "within_digit_limit 4300 1000"
    by (rule within_digit_limit_le [of _ 4], simp, simp)+
  have nb: "note_line 4300 4 ?b ''    {1, 448, 400, 0, 500},''"
    unfolding note_line_def
    by (intro conjI exI [of _ 448] exI [of _ "''448''"] exI [of _ "''500''"])
       (simp_all add: m w numeral_of_iff s)
  have nc: "note_line 4300 4 ?c ''    {1, 192, 400, 0, 500},''"
    unfolding note_line_def
    by (intro conjI exI [of _ 192] exI [of _ "''192''"] exI [of _ "''500''"])
       (simp_all add: m w numeral_of_iff s)
  have na: "note_line 4300 4 ?a ''    {1, 64, 400, 0, 1000},''"
    unfolding note_line_def
    by (intro conjI exI [of _ 64] exI [of _ "''64''"] exI [of _ "''1000''"])
       (simp_all add: m w numeral_of_iff s)
  have f: "filter (\<lambda>n. note_time n = t) [?b, ?c, ?a] = filter (\<lambda>n. note_time n = t) [?a, ?b, ?c]"
    for t
    by simp
  show ?thesis
    unfolding driver_sorts_notes_by_time [OF p]
    by (intro exI [of _ "[?b, ?c, ?a]"] exI [of _ "''2''"]
          exI [of _ "[''    {1, 448, 400, 0, 500},'', ''    {1, 192, 400, 0, 500},'',
             ''    {1, 64, 400, 0, 1000},'']"] conjI allI f)
       (simp_all add: l w numeral_of_iff s na nb nc)
qed

section \<open>Powers of two\<close>

lemma pow2_powi: "pow2 e = 2 powi e"
  by (simp add: pow2_def power_int_def power_inverse [symmetric] inverse_eq_divide
           power_one_over)

lemma pow2_pos [simp]: "0 < pow2 e"
  by (simp add: pow2_powi)

lemma pow2_nonneg [simp]: "0 \<le> pow2 e"
  using pow2_pos [of e] by (rule less_imp_le)

lemma pow2_neq0 [simp]: "pow2 e \<noteq> 0"
  using pow2_pos [of e] by linarith

lemma pow2_add: "pow2 (a + b) = pow2 a * pow2 b"
  by (simp add: pow2_powi power_int_add)

lemma pow2_le_iff [simp]: "pow2 a \<le> pow2 b \<longleftrightarrow> a \<le> b"
proof
  assume "a \<le> b"
  then show "pow2 a \<le> pow2 b"
    unfolding pow2_powi by (intro power_int_increasing) auto
next
  assume h: "pow2 a \<le> pow2 b"
  show "a \<le> b"
  proof (rule ccontr)
    assume "\<not> a \<le> b"
    then have "b < a" by simp
    then have "pow2 b < pow2 a"
      unfolding pow2_powi by (intro power_int_strict_increasing) auto
    with h show False by simp
  qed
qed

lemma pow2_less_iff [simp]: "pow2 a < pow2 b \<longleftrightarrow> a < b"
  using pow2_le_iff [of b a] by (auto simp: not_le [symmetric] simp del: pow2_le_iff)

lemma pow2_nat: "0 \<le> e \<Longrightarrow> pow2 e = of_int (2 ^ nat e)"
  by (simp add: pow2_def)

lemma pow2_0 [simp]: "pow2 0 = 1"
  by (simp add: pow2_def)

section \<open>Rounding to the nearest integer, ties to even\<close>

lemma round_half_even_of_int [simp]: "round_half_even (of_int k) = k"
  by (simp add: round_half_even_def)

lemma round_half_even_ge_floor: "\<lfloor>t\<rfloor> \<le> round_half_even t"
  by (simp add: round_half_even_def Let_def)

lemma round_half_even_le_floor1: "round_half_even t \<le> \<lfloor>t\<rfloor> + 1"
  by (simp add: round_half_even_def Let_def)

lemma round_half_even_mono:
  assumes "a \<le> b"
  shows "round_half_even a \<le> round_half_even b"
proof (cases "\<lfloor>a\<rfloor> = \<lfloor>b\<rfloor>")
  case True
  with assms show ?thesis
    by (auto simp: round_half_even_def Let_def)
next
  case False
  with assms have "\<lfloor>a\<rfloor> + 1 \<le> \<lfloor>b\<rfloor>"
    using floor_mono [of a b] by linarith
  with round_half_even_le_floor1 [of a] round_half_even_ge_floor [of b]
  show ?thesis by linarith
qed

lemma round_half_even_error: "\<bar>of_int (round_half_even t) - t\<bar> \<le> 1 / 2"
proof -
  define d where "d = t - of_int \<lfloor>t\<rfloor>"
  have d: "0 \<le> d" "d < 1" unfolding d_def by linarith+
  have c: "round_half_even t = \<lfloor>t\<rfloor> \<and> d \<le> 1 / 2 \<or>
           round_half_even t = \<lfloor>t\<rfloor> + 1 \<and> 1 / 2 \<le> d"
    by (auto simp: round_half_even_def Let_def d_def)
  have e: "of_int \<lfloor>t\<rfloor> - t = - d" "of_int (\<lfloor>t\<rfloor> + 1) - t = 1 - d"
    by (simp_all add: d_def)
  from c show ?thesis
  proof
    assume "round_half_even t = \<lfloor>t\<rfloor> \<and> d \<le> 1 / 2"
    with d e(1) show ?thesis by simp
  next
    assume "round_half_even t = \<lfloor>t\<rfloor> + 1 \<and> 1 / 2 \<le> d"
    with d e(2) show ?thesis by simp
  qed
qed

lemma round_half_even_minus: "round_half_even (- t) = - round_half_even t"
proof (cases "t = of_int \<lfloor>t\<rfloor>")
  case True
  then obtain k where "t = of_int k" by blast
  then show ?thesis
    by (simp flip: of_int_minus)
next
  case False
  then have c: "\<lceil>t\<rceil> = \<lfloor>t\<rfloor> + 1"
    by (metis ceiling_altdef)
  have f: "\<lfloor>- t\<rfloor> = - \<lfloor>t\<rfloor> - 1"
    by (simp add: floor_minus c)
  have b: "of_int \<lfloor>t\<rfloor> \<le> t" "t < of_int \<lfloor>t\<rfloor> + 1"
    by linarith+
  show ?thesis
    unfolding round_half_even_def Let_def f using b
    by (auto simp: algebra_simps)
qed

section \<open>The binary exponent\<close>

lemma expo_bounds:
  assumes "0 < r"
  shows "pow2 (expo r) \<le> r \<and> r < pow2 (expo r + 1)"
proof (cases "1 \<le> r")
  case True
  let ?n = "\<lfloor>r\<rfloor>"
  from True have n: "0 < ?n" by simp
  from bitlen_bounds [OF n]
  have lo: "2 ^ nat (bitlen ?n - 1) \<le> ?n" and hi: "?n < 2 ^ nat (bitlen ?n)" by auto
  from n have b1: "1 \<le> bitlen ?n"
    by (metis bitlen_eq_zero_iff bitlen_nonneg linorder_not_less not_less_iff_gr_or_eq
        zle_add1_eq_le zero_less_one add.left_neutral less_le)
  have e: "expo r = bitlen ?n - 1" using True by (simp add: expo_def)
  have "pow2 (expo r) = of_int (2 ^ nat (bitlen ?n - 1))"
    unfolding e using b1 by (intro pow2_nat) simp
  also have "\<dots> \<le> of_int ?n" using lo by (simp only: of_int_le_iff)
  also have "\<dots> \<le> r" by simp
  finally have A: "pow2 (expo r) \<le> r" .
  have "?n + 1 \<le> 2 ^ nat (bitlen ?n)" using hi by simp
  then have "(of_int (?n + 1) :: rat) \<le> of_int (2 ^ nat (bitlen ?n))"
    by (simp only: of_int_le_iff)
  moreover have "r < of_int (?n + 1)" by simp linarith
  moreover have "pow2 (expo r + 1) = of_int (2 ^ nat (bitlen ?n))"
    unfolding e using b1 by (simp add: pow2_nat)
  ultimately have "r < pow2 (expo r + 1)" by simp
  with A show ?thesis by simp
next
  case False
  with assms have r1: "r < 1" by simp
  let ?n = "\<lceil>1 / r\<rceil>"
  let ?b = "bitlen (?n - 1)"
  from assms r1 have inv: "1 < 1 / r" by simp
  then have n2: "2 \<le> ?n" by (simp add: le_ceiling_iff)
  then have m: "0 < ?n - 1" by simp
  from bitlen_bounds [OF m]
  have lo: "2 ^ nat (?b - 1) \<le> ?n - 1" and hi: "?n - 1 < 2 ^ nat ?b" by auto
  have e: "expo r = - ?b" using False by (simp add: expo_def)
  have b0: "0 \<le> ?b" by (rule bitlen_nonneg)
  from m have b1: "1 \<le> ?b"
    by (metis bitlen_eq_zero_iff b0 linorder_not_less less_le zle_add1_eq_le
        add.left_neutral)
  have p: "pow2 (- ?b) = 1 / of_int (2 ^ nat ?b)"
    using b0 by (auto simp: pow2_def)
  have "1 / r \<le> of_int ?n" by simp
  also have "(of_int ?n :: rat) \<le> of_int (2 ^ nat ?b)"
    using hi by (simp only: of_int_le_iff)
  finally have "1 / r \<le> of_int (2 ^ nat ?b)" .
  with assms have A: "pow2 (expo r) \<le> r"
    unfolding e p by (simp add: field_simps)
  have p1: "pow2 (- ?b + 1) = 1 / of_int (2 ^ nat (?b - 1))"
  proof -
    have "pow2 (- ?b + 1) = pow2 (- (?b - 1))" by simp
    also have "\<dots> = 1 / of_int (2 ^ nat (?b - 1))"
      using b1 by (auto simp: pow2_def)
    finally show ?thesis .
  qed
  have "(of_int (2 ^ nat (?b - 1)) :: rat) \<le> of_int (?n - 1)"
    using lo by (simp only: of_int_le_iff)
  also have "(of_int (?n - 1) :: rat) < 1 / r"
    using ceiling_correct [of "1 / r"] by simp
  finally have "of_int (2 ^ nat (?b - 1)) < 1 / r" .
  with assms have "r < pow2 (expo r + 1)"
    unfolding e p1 by (simp add: field_simps)
  with A show ?thesis by simp
qed

lemma expo_unique:
  assumes "pow2 e \<le> r" and "r < pow2 (e + 1)"
  shows "expo r = e"
proof -
  from assms(1) have pos: "0 < r" using pow2_pos [of e] by linarith
  from expo_bounds [OF pos] have a: "pow2 (expo r) \<le> r" and b: "r < pow2 (expo r + 1)"
    by auto
  from a assms(2) have "pow2 (expo r) < pow2 (e + 1)" by linarith
  then have "expo r < e + 1" by simp
  moreover from assms(1) b have "pow2 e < pow2 (expo r + 1)" by linarith
  then have "e < expo r + 1" by simp
  ultimately show ?thesis by simp
qed

lemma expo_mono:
  assumes "0 < r" and "r \<le> s"
  shows "expo r \<le> expo s"
proof -
  from assms have s: "0 < s" by simp
  from expo_bounds [OF assms(1)] expo_bounds [OF s] assms(2)
  have "pow2 (expo r) < pow2 (expo s + 1)" by linarith
  then show ?thesis by simp
qed

lemma expo_pow2 [simp]: "expo (pow2 e) = e"
  by (rule expo_unique) simp_all

section \<open>Rounding to binary64\<close>

lemma fl_zero [simp]: "fl 0 = 0"
  by (simp add: fl_def)

lemma fl_minus: "fl (- r) = - fl r"
  by (simp add: fl_def Let_def round_half_even_minus)

lemma fl_pos_eq:
  assumes "0 < r"
  shows "fl r = of_int (round_half_even (r / pow2 (max (expo r) (- 1022) - 52)))
                * pow2 (max (expo r) (- 1022) - 52)"
  using assms by (simp add: fl_def Let_def)

lemma fl_nonneg:
  assumes "0 \<le> r"
  shows "0 \<le> fl r"
proof (cases "r = 0")
  case True
  then show ?thesis by simp
next
  case False
  with assms have pos: "0 < r" by simp
  let ?q = "pow2 (max (expo r) (- 1022) - 52)"
  from pos have "0 \<le> r / ?q" by simp
  then have "round_half_even 0 \<le> round_half_even (r / ?q)"
    by (rule round_half_even_mono)
  moreover have "round_half_even 0 = 0"
    using round_half_even_of_int [of 0] by simp
  ultimately have "0 \<le> round_half_even (r / ?q)" by simp
  then show ?thesis
    unfolding fl_pos_eq [OF pos] by simp
qed

lemma round_half_even_le:
  assumes "t \<le> of_int k"
  shows "round_half_even t \<le> k"
  using round_half_even_mono [OF assms] by simp

lemma round_half_even_ge:
  assumes "of_int k \<le> t"
  shows "k \<le> round_half_even t"
  using round_half_even_mono [OF assms] by simp

lemma pow2_split53: "pow2 (e + 1) = of_int (2 ^ 53) * pow2 (e - 52)"
proof -
  have "e + 1 = 53 + (e - 52)" by simp
  then have "pow2 (e + 1) = pow2 (53 + (e - 52))" by (rule arg_cong)
  also have "\<dots> = pow2 53 * pow2 (e - 52)" by (rule pow2_add)
  also have "pow2 53 = of_int (2 ^ 53)" by (simp add: pow2_def)
  finally show ?thesis .
qed

lemma pow2_split52: "pow2 e = of_int (2 ^ 52) * pow2 (e - 52)"
proof -
  have "e = 52 + (e - 52)" by simp
  then have "pow2 e = pow2 (52 + (e - 52))" by (rule arg_cong)
  also have "\<dots> = pow2 52 * pow2 (e - 52)" by (rule pow2_add)
  also have "pow2 52 = of_int (2 ^ 52)" by (simp add: pow2_def)
  finally show ?thesis .
qed

lemma fl_le_pow2:
  assumes "0 < r"
  shows "fl r \<le> pow2 (max (expo r) (- 1022) + 1)"
proof -
  let ?E = "max (expo r) (- 1022)"
  let ?q = "pow2 (?E - 52)"
  from expo_bounds [OF assms] have "r < pow2 (expo r + 1)" by simp
  also have "\<dots> \<le> pow2 (?E + 1)" by simp
  finally have "r \<le> of_int (2 ^ 53) * ?q"
    unfolding pow2_split53 [of ?E] by simp
  then have "r / ?q \<le> of_int (2 ^ 53)"
    by (simp add: field_simps)
  then have "round_half_even (r / ?q) \<le> 2 ^ 53"
    by (rule round_half_even_le)
  then have "(of_int (round_half_even (r / ?q)) :: rat) \<le> of_int (2 ^ 53)"
    by (simp only: of_int_le_iff)
  then have "of_int (round_half_even (r / ?q)) * ?q \<le> of_int (2 ^ 53) * ?q"
    by (intro mult_right_mono) simp_all
  then show ?thesis
    unfolding fl_pos_eq [OF assms] pow2_split53 [of ?E] .
qed

lemma fl_ge_pow2:
  assumes "0 < r" and "- 1022 \<le> expo r"
  shows "pow2 (expo r) \<le> fl r"
proof -
  let ?q = "pow2 (expo r - 52)"
  from assms(2) have E: "max (expo r) (- 1022) = expo r" by simp
  from expo_bounds [OF assms(1)] have "of_int (2 ^ 52) * ?q \<le> r"
    unfolding pow2_split52 [of "expo r", symmetric] by simp
  then have "of_int (2 ^ 52) \<le> r / ?q"
    by (simp add: field_simps)
  then have "2 ^ 52 \<le> round_half_even (r / ?q)"
    by (rule round_half_even_ge)
  then have "(of_int (2 ^ 52) :: rat) \<le> of_int (round_half_even (r / ?q))"
    by (simp only: of_int_le_iff)
  then have "of_int (2 ^ 52) * ?q \<le> of_int (round_half_even (r / ?q)) * ?q"
    by (intro mult_right_mono) simp_all
  then show ?thesis
    unfolding fl_pos_eq [OF assms(1)] E pow2_split52 [of "expo r", symmetric] .
qed

lemma fl_mono_pos:
  assumes "0 < r" and "r \<le> s"
  shows "fl r \<le> fl s"
proof -
  from assms have s: "0 < s" by simp
  let ?Er = "max (expo r) (- 1022)"
  let ?Es = "max (expo s) (- 1022)"
  from expo_mono [OF assms] have le: "?Er \<le> ?Es" by simp
  show ?thesis
  proof (cases "?Er = ?Es")
    case True
    let ?q = "pow2 (?Es - 52)"
    from assms(2) have "r / ?q \<le> s / ?q"
      by (simp add: divide_right_mono)
    then have "round_half_even (r / ?q) \<le> round_half_even (s / ?q)"
      by (rule round_half_even_mono)
    then have "(of_int (round_half_even (r / ?q)) :: rat) \<le> of_int (round_half_even (s / ?q))"
      by (simp only: of_int_le_iff)
    then have "of_int (round_half_even (r / ?q)) * ?q \<le> of_int (round_half_even (s / ?q)) * ?q"
      by (intro mult_right_mono) simp_all
    then show ?thesis
      unfolding fl_pos_eq [OF assms(1)] fl_pos_eq [OF s] True .
  next
    case False
    from False le have lt: "?Er < ?Es"
      by (rule order.not_eq_order_implies_strict)
    then have es: "- 1022 \<le> expo s" "?Es = expo s" by auto
    have "fl r \<le> pow2 (?Er + 1)" by (rule fl_le_pow2 [OF assms(1)])
    also have "\<dots> \<le> pow2 (expo s)"
    proof -
      from lt es(2) have "?Er + 1 \<le> expo s" by linarith
      then show ?thesis by (simp only: pow2_le_iff)
    qed
    also have "\<dots> \<le> fl s" by (rule fl_ge_pow2 [OF s es(1)])
    finally show ?thesis .
  qed
qed

lemma fl_mono:
  assumes "r \<le> s"
  shows "fl r \<le> fl s"
proof -
  consider "0 < r" | "r \<le> 0" "0 \<le> s" | "s < 0" by linarith
  then show ?thesis
  proof cases
    case 1
    then show ?thesis using assms by (rule fl_mono_pos)
  next
    case 2
    then have "0 \<le> fl s" "0 \<le> fl (- r)" by (simp_all add: fl_nonneg)
    then show ?thesis by (simp add: fl_minus)
  next
    case 3
    with assms have "0 < - s" "- s \<le> - r" by simp_all
    then have "fl (- s) \<le> fl (- r)" by (rule fl_mono_pos)
    then show ?thesis by (simp add: fl_minus)
  qed
qed

lemma fl_pow2:
  assumes "- 1022 \<le> e"
  shows "fl (pow2 e) = pow2 e"
proof -
  have pos: "0 < pow2 e" by simp
  from assms have E: "max (expo (pow2 e)) (- 1022) = e" by simp
  have "pow2 e / pow2 (e - 52) = of_int (2 ^ 52)"
    using pow2_split52 [of e] by simp
  then show ?thesis
    unfolding fl_pos_eq [OF pos] E
    by (simp only: round_half_even_of_int pow2_split52 [of e, symmetric])
qed

lemma fl_abs_le:
  assumes "\<bar>r\<bar> \<le> pow2 e" and "- 1022 \<le> e"
  shows "\<bar>fl r\<bar> \<le> pow2 e"
proof -
  from assms(1) have "r \<le> pow2 e" "- pow2 e \<le> r" by linarith+
  then have "fl r \<le> fl (pow2 e)" "fl (- pow2 e) \<le> fl r"
    by (simp_all add: fl_mono)
  then show ?thesis
    by (simp add: fl_minus fl_pow2 [OF assms(2)] abs_le_iff)
qed

lemma fl_error_upper:
  assumes "pow2 (- 1022) \<le> r"
  shows "fl r \<le> r + r / 2 ^ 53"
proof -
  have pos: "0 < r" using assms pow2_pos [of "- 1022"] by linarith
  have "expo (pow2 (- 1022)) \<le> expo r"
    by (rule expo_mono [OF _ assms]) simp
  then have e: "- 1022 \<le> expo r" by simp
  then have E: "max (expo r) (- 1022) = expo r" by simp
  let ?q = "pow2 (expo r - 52)"
  let ?m = "round_half_even (r / ?q)"
  from round_half_even_error [of "r / ?q"] have "of_int ?m \<le> r / ?q + 1 / 2"
    by linarith
  then have "of_int ?m * ?q \<le> (r / ?q + 1 / 2) * ?q"
    by (intro mult_right_mono) simp_all
  also have "\<dots> = r + ?q / 2"
    by (simp add: field_simps)
  finally have a: "fl r \<le> r + ?q / 2"
    unfolding fl_pos_eq [OF pos] E .
  have "of_int (2 ^ 52) * ?q \<le> r"
    using expo_bounds [OF pos] unfolding pow2_split52 [of "expo r", symmetric] by simp
  then have "?q / 2 \<le> r / 2 ^ 53"
    by simp
  with a show ?thesis by linarith
qed

section \<open>Float operations that succeed\<close>

lemma expo_less:
  assumes "0 < v" and "v < pow2 e"
  shows "expo v < e"
proof -
  from expo_bounds [OF assms(1)] assms(2) have "pow2 (expo v) < pow2 e" by linarith
  then show ?thesis by simp
qed

lemma to_double_Inr_iff:
  "to_double r = Inr v \<longleftrightarrow> v = fl r \<and> (fl r = 0 \<or> expo \<bar>fl r\<bar> < 1024)"
  by (auto simp: to_double_def Let_def)

lemma to_double_ok:
  assumes "\<bar>fl r\<bar> < pow2 1024"
  shows "to_double r = Inr (fl r)"
proof (cases "fl r = 0")
  case True
  then show ?thesis by (simp add: to_double_def)
next
  case False
  then have "0 < \<bar>fl r\<bar>" by simp
  from expo_less [OF this assms] show ?thesis
    by (simp add: to_double_def Let_def)
qed

lemma to_double_mono:
  assumes "to_double r = Inr a" and "to_double s = Inr b" and "r \<le> s"
  shows "a \<le> b"
  using assms by (auto simp: to_double_Inr_iff fl_mono)

lemma float_to_int_mono:
  assumes "r \<le> s"
  shows "float_to_int r \<le> float_to_int s"
proof -
  consider "0 \<le> r" | "r < 0" "0 \<le> s" | "s < 0" by linarith
  then show ?thesis
  proof cases
    case 1
    with assms show ?thesis by (simp add: float_to_int_def floor_mono)
  next
    case 2
    then have "\<lceil>r\<rceil> \<le> 0" "0 \<le> \<lfloor>s\<rfloor>" by (simp_all add: ceiling_le_iff)
    then have "\<lceil>r\<rceil> \<le> \<lfloor>s\<rfloor>" by linarith
    with 2 show ?thesis by (simp add: float_to_int_def)
  next
    case 3
    with assms show ?thesis by (simp add: float_to_int_def ceiling_mono)
  qed
qed

section \<open>The mapper: columns and monotonicity\<close>

lemma true_div_pos:
  assumes "true_div a b = Inr w" and "0 \<le> a" and "0 < b"
  shows "0 \<le> w"
proof -
  from assms(1,3) have "w = fl (of_int a / of_int b)"
    by (auto simp: true_div_def to_double_Inr_iff split: if_splits)
  moreover from assms(2,3) have "(0::rat) \<le> of_int a / of_int b" by simp
  ultimately show ?thesis by (simp add: fl_nonneg)
qed

lemma int_to_float_mono:
  assumes "int_to_float a = Inr fa" and "int_to_float b = Inr fb" and "a \<le> b"
  shows "fa \<le> fb"
proof -
  from assms(3) have "(of_int a :: rat) \<le> of_int b" by simp
  with assms(1,2) show ?thesis
    unfolding int_to_float_def by (rule to_double_mono)
qed

lemma clamp_mono:
  fixes c1 c2 keys :: int
  assumes "c1 \<le> c2" and "1 \<le> keys"
  shows "(let col = (if c1 < 0 then 0 else c1) in if keys \<le> col then keys - 1 else col)
       \<le> (let col = (if c2 < 0 then 0 else c2) in if keys \<le> col then keys - 1 else col)"
  using assms by (auto simp: Let_def)

lemma column_of_x_Inr:
  assumes "column_of_x x keys W = Inr c"
  obtains w xf q where "true_div W keys = Inr w" and "int_to_float x = Inr xf"
    and "float_div xf w = Inr q"
    and "c = (let col = (if float_to_int q < 0 then 0 else float_to_int q)
              in if keys \<le> col then keys - 1 else col)"
  using assms unfolding column_of_x_def and_then_Inr_iff Let_def by auto

lemma column_of_x_range:
  assumes "column_of_x x keys W = Inr c" and "1 \<le> keys"
  shows "0 \<le> c \<and> c \<le> keys - 1"
proof -
  from assms(1) obtain q where
    "c = (let col = (if float_to_int q < 0 then 0 else float_to_int q)
          in if keys \<le> col then keys - 1 else col)"
    by (rule column_of_x_Inr)
  with assms(2) show ?thesis by (auto simp: Let_def)
qed

lemma column_of_x_mono:
  assumes "column_of_x x1 keys W = Inr c1" and "column_of_x x2 keys W = Inr c2"
    and "x1 \<le> x2" and "1 \<le> keys" and "0 \<le> W"
  shows "c1 \<le> c2"
proof -
  from assms(1) obtain w xf1 q1 where w: "true_div W keys = Inr w"
    and x1: "int_to_float x1 = Inr xf1" and q1: "float_div xf1 w = Inr q1"
    and c1: "c1 = (let col = (if float_to_int q1 < 0 then 0 else float_to_int q1)
                   in if keys \<le> col then keys - 1 else col)"
    by (rule column_of_x_Inr)
  from assms(2) obtain w' xf2 q2 where w': "true_div W keys = Inr w'"
    and x2: "int_to_float x2 = Inr xf2" and q2: "float_div xf2 w' = Inr q2"
    and c2: "c2 = (let col = (if float_to_int q2 < 0 then 0 else float_to_int q2)
                   in if keys \<le> col then keys - 1 else col)"
    by (rule column_of_x_Inr)
  from w w' have same: "w' = w" by simp
  from w assms(4,5) have "0 \<le> w" by (intro true_div_pos [OF w]) simp_all
  moreover from q1 have "w \<noteq> 0" by (auto simp: float_div_def split: if_splits)
  ultimately have wpos: "0 < w" by simp
  from x1 x2 assms(3) have "xf1 \<le> xf2"
    by (rule int_to_float_mono)
  with wpos have "xf1 / w \<le> xf2 / w" by (simp add: divide_right_mono)
  with q1 q2 have "q1 \<le> q2"
    unfolding same float_div_def using wpos by (auto intro: to_double_mono)
  then have "float_to_int q1 \<le> float_to_int q2" by (rule float_to_int_mono)
  then show ?thesis
    unfolding c1 c2 using assms(4) by (rule clamp_mono)
qed

lemma column_center_Inr:
  assumes "column_center c keys W = Inr v"
  obtains w cf p h s where "true_div W keys = Inr w" and "int_to_float c = Inr cf"
    and "float_mul cf w = Inr p" and "float_div w 2 = Inr h" and "float_add p h = Inr s"
    and "v = float_to_int s"
  using assms unfolding column_center_def and_then_Inr_iff by auto

lemma column_center_mono:
  assumes "column_center c1 keys W = Inr a" and "column_center c2 keys W = Inr b"
    and "c1 \<le> c2" and "1 \<le> keys" and "0 \<le> W"
  shows "a \<le> b"
proof -
  from assms(1) obtain w cf1 p1 h s1 where w: "true_div W keys = Inr w"
    and f1: "int_to_float c1 = Inr cf1" and p1: "float_mul cf1 w = Inr p1"
    and h: "float_div w 2 = Inr h" and s1: "float_add p1 h = Inr s1"
    and a: "a = float_to_int s1"
    by (rule column_center_Inr)
  from assms(2) obtain w' cf2 p2 h' s2 where w': "true_div W keys = Inr w'"
    and f2: "int_to_float c2 = Inr cf2" and p2: "float_mul cf2 w' = Inr p2"
    and h': "float_div w' 2 = Inr h'" and s2: "float_add p2 h' = Inr s2"
    and b: "b = float_to_int s2"
    by (rule column_center_Inr)
  from w w' have same: "w' = w" by simp
  with h h' have sameh: "h' = h" by simp
  from w assms(4,5) have wpos: "0 \<le> w" by (intro true_div_pos [OF w]) simp_all
  from f1 f2 assms(3) have "cf1 \<le> cf2"
    by (rule int_to_float_mono)
  then have "cf1 * w \<le> cf2 * w" using wpos by (rule mult_right_mono)
  with p1 p2 have "p1 \<le> p2"
    unfolding same float_mul_def by (rule to_double_mono)
  then have "p1 + h \<le> p2 + h" by simp
  with s1 s2 have "s1 \<le> s2"
    unfolding sameh float_add_def by (rule to_double_mono)
  then show ?thesis
    unfolding a b by (rule float_to_int_mono)
qed

text \<open>
  Claim C5. For a key count of at least 1 and the playfield width 512, the
  mapper is monotonic in x: when it returns for \<open>x1 \<le> x2\<close>, the value for \<open>x1\<close>
  is at most the value for \<open>x2\<close>. Every step of the computation is monotonic:
  the conversion to float, the division by the positive column width, the
  truncation, the clamping, the product, the sum and the final truncation.
\<close>

theorem mapper_monotone:
  assumes "1 \<le> keys" and "x1 \<le> x2"
    and "map_column_x_to_Vectra_x x1 keys 512 = Inr a"
    and "map_column_x_to_Vectra_x x2 keys 512 = Inr b"
  shows "a \<le> b"
proof -
  from assms(3) obtain c1 where c1: "column_of_x x1 keys 512 = Inr c1"
    and a: "column_center c1 keys 512 = Inr a"
    by (auto simp: map_column_x_to_Vectra_x_def and_then_Inr_iff)
  from assms(4) obtain c2 where c2: "column_of_x x2 keys 512 = Inr c2"
    and b: "column_center c2 keys 512 = Inr b"
    by (auto simp: map_column_x_to_Vectra_x_def and_then_Inr_iff)
  from c1 c2 assms(2,1) have "c1 \<le> c2" by (rule column_of_x_mono) simp
  with a b show ?thesis using assms(1) by (rule column_center_mono) simp
qed

theorem mapper_monotone_witness:
  "map_column_x_to_Vectra_x 100 4 512 = Inr 64 \<and>
   map_column_x_to_Vectra_x 300 4 512 = Inr 320 \<and> (64::int) \<le> 320"
proof -
  have a: "map_column_x_to_Vectra_x 100 4 512 = Inr 64" by code_simp
  have b: "map_column_x_to_Vectra_x 300 4 512 = Inr 320" by code_simp
  have "(1::int) \<le> 4" and "(100::int) \<le> 300" by simp_all
  from mapper_monotone [OF this a b] a b show ?thesis by simp
qed

section \<open>The mapper: column centers\<close>

lemma fl_error_lower:
  assumes "pow2 (- 1022) \<le> r"
  shows "r - r / 2 ^ 53 \<le> fl r"
proof -
  have pos: "0 < r" using assms pow2_pos [of "- 1022"] by linarith
  have "expo (pow2 (- 1022)) \<le> expo r"
    by (rule expo_mono [OF _ assms]) simp
  then have e: "- 1022 \<le> expo r" by simp
  then have E: "max (expo r) (- 1022) = expo r" by simp
  let ?q = "pow2 (expo r - 52)"
  let ?m = "round_half_even (r / ?q)"
  from round_half_even_error [of "r / ?q"] have "r / ?q - 1 / 2 \<le> of_int ?m"
    by linarith
  then have "(r / ?q - 1 / 2) * ?q \<le> of_int ?m * ?q"
    by (intro mult_right_mono) simp_all
  moreover have "(r / ?q - 1 / 2) * ?q = r - ?q / 2"
    by (simp add: field_simps)
  ultimately have a: "r - ?q / 2 \<le> fl r"
    unfolding fl_pos_eq [OF pos] E by simp
  have "of_int (2 ^ 52) * ?q \<le> r"
    using expo_bounds [OF pos] unfolding pow2_split52 [of "expo r", symmetric] by simp
  then have "?q / 2 \<le> r / 2 ^ 53"
    by simp
  with a show ?thesis by linarith
qed

lemma fl_rel:
  assumes "r = 0 \<or> pow2 (- 1022) \<le> r"
  shows "r * round_lo \<le> fl r \<and> fl r \<le> r * round_hi"
proof (cases "r = 0")
  case True
  then show ?thesis by simp
next
  case False
  with assms have r: "pow2 (- 1022) \<le> r" by simp
  have lo: "r * round_lo = r - r / 2 ^ 53"
    by (simp add: round_lo_def algebra_simps)
  have hi: "r * round_hi = r + r / 2 ^ 53"
    by (simp add: round_hi_def algebra_simps)
  show ?thesis
    unfolding lo hi using fl_error_lower [OF r] fl_error_upper [OF r] by (rule conjI)
qed

lemma round_bounds:
  "0 \<le> round_lo" "round_lo \<le> 1" "1 \<le> round_hi" "0 \<le> round_hi" "1 / 2 \<le> round_lo"
  by (simp_all add: round_lo_def round_hi_def)

lemma round_lo4: "1 - 4 / 2 ^ 53 \<le> round_lo * round_lo * round_lo * round_lo"
  by code_simp

lemma round_hi4: "round_hi * round_hi * round_hi * round_hi \<le> 1 + 5 / 2 ^ 53"
  by code_simp

lemma fl_rel_step:
  assumes "a * l \<le> r" and "r \<le> a * u" and "r = 0 \<or> pow2 (- 1022) \<le> r"
  shows "a * (l * round_lo) \<le> fl r \<and> fl r \<le> a * (u * round_hi)"
proof -
  from fl_rel [OF assms(3)] have f: "r * round_lo \<le> fl r" "fl r \<le> r * round_hi" by simp_all
  from assms(1) have "(a * l) * round_lo \<le> r * round_lo"
    by (rule mult_right_mono) (rule round_bounds)
  moreover from assms(2) have "r * round_hi \<le> (a * u) * round_hi"
    by (rule mult_right_mono) (rule round_bounds)
  ultimately show ?thesis using f by (simp add: mult.assoc)
qed

lemma tiny_40: "pow2 (- 1022) \<le> 1 / 2 ^ 40"
proof -
  have "pow2 (- 1022) \<le> pow2 (- 40)" by simp
  also have "pow2 (- 40) = 1 / 2 ^ 40" by (simp add: pow2_def)
  finally show ?thesis .
qed

lemma column_center_binary64:
  assumes "column_center i keys 512 = Inr v" and "1 \<le> keys" and "0 \<le> i"
  shows "v = binary64_center keys i"
proof -
  from assms(1) obtain w cf p h s where w: "true_div 512 keys = Inr w"
    and cf: "int_to_float i = Inr cf" and p: "float_mul cf w = Inr p"
    and h: "float_div w 2 = Inr h" and s: "float_add p h = Inr s"
    and v: "v = float_to_int s"
    by (rule column_center_Inr)
  from w assms(2) have w': "w = fl (512 / of_int keys)"
    by (auto simp: true_div_def to_double_Inr_iff split: if_splits)
  from cf have cf': "cf = fl (of_int i)"
    by (simp add: int_to_float_def to_double_Inr_iff)
  from p have p': "p = fl (cf * w)" by (simp add: float_mul_def to_double_Inr_iff)
  from h have h': "h = fl (w / 2)" by (simp add: float_div_def to_double_Inr_iff)
  from s have s': "s = fl (p + h)" by (simp add: float_add_def to_double_Inr_iff)
  from assms(2) have "(0::rat) \<le> 512 / of_int keys" by simp
  then have w0: "0 \<le> w" unfolding w' by (rule fl_nonneg)
  from assms(3) have "(0::rat) \<le> of_int i" by simp
  then have c0: "0 \<le> cf" unfolding cf' by (rule fl_nonneg)
  from c0 w0 have "0 \<le> cf * w" by simp
  then have p0: "0 \<le> p" unfolding p' by (rule fl_nonneg)
  from w0 have "0 \<le> w / 2" by simp
  then have h0: "0 \<le> h" unfolding h' by (rule fl_nonneg)
  from p0 h0 have "0 \<le> p + h" by simp
  then have "0 \<le> s" unfolding s' by (rule fl_nonneg)
  then have "v = \<lfloor>s\<rfloor>" unfolding v by (simp add: float_to_int_def)
  then show ?thesis
    unfolding binary64_center_def s' p' h' cf' w' .
qed

lemma binary64_center_close:
  assumes "1 \<le> keys" and "keys \<le> 2 ^ 40" and "0 \<le> i" and "i \<le> keys - 1"
  shows "exact_center keys i - 1 \<le> binary64_center keys i \<and>
         binary64_center keys i \<le> exact_center keys i"
proof -
  define k :: rat where "k = of_int keys"
  define c :: rat where "c = of_int i"
  define r0 where "r0 = 512 / k"
  define w where "w = fl r0"
  define cf where "cf = fl c"
  define p where "p = fl (cf * w)"
  define h where "h = fl (w / 2)"
  define s where "s = fl (p + h)"
  define e where "e = c * r0 + r0 / 2"
  define l2 where "l2 = round_lo * round_lo"
  define l3 where "l3 = l2 * round_lo"
  define l4 where "l4 = l3 * round_lo"
  define u2 where "u2 = round_hi * round_hi"
  define u3 where "u3 = u2 * round_hi"
  define u4 where "u4 = u3 * round_hi"
  note rb = round_bounds
  have tiny: "x = 0 \<or> pow2 (- 1022) \<le> x" if "1 / 2 ^ 40 \<le> x" for x
    using tiny_40 that by linarith
  have l2: "0 \<le> l2" "l2 \<le> 1" unfolding l2_def using rb
    by (simp_all add: mult_le_one)
  have l3: "0 \<le> l3" "l3 \<le> l2" unfolding l3_def using rb l2
    by (simp_all add: mult_left_le)
  have u2: "1 \<le> u2" "0 \<le> u2"
  proof -
    have "1 * 1 \<le> round_hi * round_hi" using rb by (intro mult_mono) simp_all
    then show "1 \<le> u2" unfolding u2_def by simp
    then show "0 \<le> u2" by simp
  qed
  have u3: "u2 \<le> u3" unfolding u3_def using rb u2
    by (simp add: mult_le_cancel_left1)
  have l4: "1 - 4 / 2 ^ 53 \<le> l4"
    unfolding l4_def l3_def l2_def by (rule round_lo4)
  have u4: "u4 \<le> 1 + 5 / 2 ^ 53"
    unfolding u4_def u3_def u2_def by (rule round_hi4)
  have k1: "1 \<le> k" unfolding k_def using assms(1) by simp
  then have kpos: "0 < k" by linarith
  have "(of_int keys :: rat) \<le> of_int (2 ^ 40)" using assms(2) by (simp only: of_int_le_iff)
  then have k40: "k \<le> 2 ^ 40" unfolding k_def by simp
  have c0: "0 \<le> c" unfolding c_def using assms(3) by simp
  have "(of_int i :: rat) \<le> of_int (keys - 1)" using assms(4) by (simp only: of_int_le_iff)
  then have ck: "c \<le> k - 1" unfolding c_def k_def by simp
  have c01: "c = 0 \<or> 1 \<le> c"
  proof (cases "i = 0")
    case True
    then show ?thesis by (simp add: c_def)
  next
    case False
    with assms(3) have "1 \<le> i" by simp
    then have "(of_int 1 :: rat) \<le> of_int i" by (simp only: of_int_le_iff)
    then show ?thesis by (simp add: c_def)
  qed
  have "1 / 2 ^ 31 * k \<le> 512" using k40 by simp
  then have r0lo: "1 / 2 ^ 31 \<le> r0" unfolding r0_def using kpos
    by (simp only: pos_le_divide_eq)
  then have r0pos: "0 \<le> r0" by simp
  have "r0 = 0 \<or> pow2 (- 1022) \<le> r0" using r0lo by (intro tiny) simp
  from fl_rel [OF this] have wb: "r0 * round_lo \<le> w" "w \<le> r0 * round_hi"
    unfolding w_def by simp_all
  have "1 / 2 ^ 31 * (1 / 2) \<le> r0 * round_lo"
    using r0lo rb(5) r0pos by (intro mult_mono) simp_all
  with wb(1) have wlo: "1 / 2 ^ 32 \<le> w" by simp
  then have w0: "0 \<le> w" by simp
  have "c = 0 \<or> pow2 (- 1022) \<le> c"
    using c01 tiny [of c] by auto
  from fl_rel [OF this] have cb: "c * round_lo \<le> cf" "cf \<le> c * round_hi"
    unfolding cf_def by simp_all
  have "0 \<le> c * round_lo" using c0 rb(1) by (rule mult_nonneg_nonneg)
  with cb(1) have cf0: "0 \<le> cf" by linarith
  have "(c * round_lo) * (r0 * round_lo) \<le> cf * w"
    using cb(1) wb(1) cf0 by (rule mult_mono) (simp add: r0pos rb)
  then have pl: "(c * r0) * l2 \<le> cf * w" by (simp add: l2_def ac_simps)
  have "cf * w \<le> (c * round_hi) * (r0 * round_hi)"
    using cb(2) wb(2) by (rule mult_mono) (simp_all add: c0 rb w0)
  then have pu: "cf * w \<le> (c * r0) * u2" by (simp add: u2_def ac_simps)
  have ps: "cf * w = 0 \<or> pow2 (- 1022) \<le> cf * w"
  proof (cases "c = 0")
    case True
    then show ?thesis by (simp add: cf_def)
  next
    case False
    with c01 have "1 \<le> c" by simp
    then have "1 * (1 / 2) \<le> c * round_lo" using rb(5) c0 by (intro mult_mono) simp_all
    with cb(1) have "1 / 2 \<le> cf" by simp
    then have "1 / 2 * (1 / 2 ^ 32) \<le> cf * w" using wlo cf0 by (intro mult_mono) simp_all
    then show ?thesis by (intro tiny) simp
  qed
  from fl_rel_step [OF pl pu ps] have pb: "(c * r0) * l3 \<le> p" "p \<le> (c * r0) * u3"
    unfolding p_def l3_def u3_def by simp_all
  have "0 \<le> (c * r0) * l3" using c0 r0pos l3(1) by simp
  with pb(1) have p0: "0 \<le> p" by linarith
  have hl: "(r0 / 2) * round_lo \<le> w / 2" and hu: "w / 2 \<le> (r0 / 2) * round_hi"
    using wb by simp_all
  have hs: "w / 2 = 0 \<or> pow2 (- 1022) \<le> w / 2" using wlo by (intro tiny) simp
  from fl_rel_step [OF hl hu hs] have hb2: "(r0 / 2) * l2 \<le> h" "h \<le> (r0 / 2) * u2"
    unfolding h_def l2_def u2_def by simp_all
  have "(r0 / 2) * l3 \<le> (r0 / 2) * l2" using l3(2) r0pos by (intro mult_left_mono) simp_all
  with hb2(1) have hl3: "(r0 / 2) * l3 \<le> h" by linarith
  have "(r0 / 2) * u2 \<le> (r0 / 2) * u3" using u3 r0pos by (intro mult_left_mono) simp_all
  with hb2(2) have hu3: "h \<le> (r0 / 2) * u3" by linarith
  from fl_rel [OF hs] have "w / 2 * round_lo \<le> h" unfolding h_def by simp
  moreover have "1 / 2 ^ 33 * (1 / 2) \<le> w / 2 * round_lo"
    using wlo rb(5) w0 by (intro mult_mono) simp_all
  ultimately have hlo: "1 / 2 ^ 34 \<le> h" by simp
  have el: "e * l3 = (c * r0) * l3 + (r0 / 2) * l3" and eu: "e * u3 = (c * r0) * u3 + (r0 / 2) * u3"
    by (simp_all add: e_def algebra_simps)
  have sl: "e * l3 \<le> p + h" unfolding el using pb(1) hl3 by linarith
  have su: "p + h \<le> e * u3" unfolding eu using pb(2) hu3 by linarith
  have ss: "p + h = 0 \<or> pow2 (- 1022) \<le> p + h" using p0 hlo by (intro tiny) simp
  from fl_rel_step [OF sl su ss] have sb: "e * l4 \<le> s" "s \<le> e * u4"
    unfolding s_def l4_def u4_def by simp_all
  have e0: "0 \<le> e" unfolding e_def using c0 r0pos by simp
  have ek: "e * k = (2 * c + 1) * 256"
    unfolding e_def r0_def using kpos by (simp add: field_simps)
  have "e * k \<le> 512 * k" unfolding ek using ck by simp
  then have e512: "e \<le> 512" using kpos by (rule mult_right_le_imp_le)
  have "e * (1 - 4 / 2 ^ 53) \<le> e * l4" using l4 e0 by (rule mult_left_mono)
  with sb(1) have "e - e * (4 / 2 ^ 53) \<le> s" by (simp add: algebra_simps)
  with e512 have slow: "e - 1 \<le> s" by simp
  have "e * u4 \<le> e * (1 + 5 / 2 ^ 53)" using u4 e0 by (rule mult_left_mono)
  with sb(2) have "s \<le> e * (1 + 5 / 2 ^ 53)" by linarith
  then have "s * k \<le> e * (1 + 5 / 2 ^ 53) * k" using kpos by (intro mult_right_mono) simp_all
  also have "\<dots> = e * k + e * k * (5 / 2 ^ 53)" by (simp add: algebra_simps)
  also have "\<dots> < e * k + 1" unfolding ek using ck k40 by simp
  finally have shigh: "s * k < e * k + 1" .
  define N where "N = (2 * i + 1) * 256"
  have eNk: "e * k = of_int N" unfolding ek N_def c_def by simp
  then have eN: "e = of_int N / of_int keys"
    using kpos unfolding k_def by (simp add: field_simps)
  have fe: "\<lfloor>e\<rfloor> = N div keys" unfolding eN by (rule floor_divide_of_int_eq)
  have dm: "keys * (N div keys) + N mod keys = N" by (rule mult_div_mod_eq)
  have "N mod keys < keys" using assms(1) by simp
  moreover have "keys * (N div keys + 1) = keys * (N div keys) + keys"
    by (simp add: algebra_simps)
  ultimately have "N + 1 \<le> keys * (N div keys + 1)" using dm by linarith
  then have "(of_int (N + 1) :: rat) \<le> of_int (keys * (N div keys + 1))"
    by (simp only: of_int_le_iff)
  then have "e * k + 1 \<le> of_int (\<lfloor>e\<rfloor> + 1) * k"
    unfolding fe eNk unfolding k_def by (simp add: ac_simps)
  with shigh have "s * k < of_int (\<lfloor>e\<rfloor> + 1) * k" by linarith
  then have "s < of_int (\<lfloor>e\<rfloor> + 1)" using kpos by (simp only: mult_less_cancel_right_pos)
  then have "\<lfloor>s\<rfloor> < \<lfloor>e\<rfloor> + 1" by (simp only: floor_less_iff)
  then have up: "\<lfloor>s\<rfloor> \<le> \<lfloor>e\<rfloor>" by linarith
  have "of_int (\<lfloor>e\<rfloor> - 1) \<le> e - 1" using of_int_floor_le [of e] by simp
  with slow have "of_int (\<lfloor>e\<rfloor> - 1) \<le> s" by linarith
  then have low: "\<lfloor>e\<rfloor> - 1 \<le> \<lfloor>s\<rfloor>" by (simp only: le_floor_iff)
  have b: "binary64_center keys i = \<lfloor>s\<rfloor>"
    unfolding binary64_center_def s_def p_def h_def cf_def w_def r0_def c_def k_def ..
  have x: "exact_center keys i = \<lfloor>e\<rfloor>"
    unfolding exact_center_def e_def r0_def c_def k_def ..
  from up low show ?thesis unfolding b x by simp
qed

text \<open>
  Claim C10 says that every output of the mapper is the integer truncation of
  \<open>i * (512 / keys) + (512 / keys) / 2\<close> for a column index \<open>i\<close> between 0 and
  \<open>keys - 1\<close>. With 12 keys these values are 21, 64, 106, 149, 192, 234, 277,
  320, 362, 405, 448 and 490, but the mapper sends x = 300 to 319: the code
  evaluates the expression in binary64 floats, and there the center of
  column 7 comes out just below 320.
\<close>

theorem mapper_image_counterexample:
  "map_column_x_to_Vectra_x 300 12 512 = Inr 319 \<and>
   map (exact_center 12) [0, 1, 2, 3, 4, 5, 6, 7, 8, 9, 10, 11] =
     [21, 64, 106, 149, 192, 234, 277, 320, 362, 405, 448, 490]"
proof -
  have a: "map_column_x_to_Vectra_x 300 12 512 = Inr 319" by code_simp
  have b: "map (exact_center 12) [0, 1, 2, 3, 4, 5, 6, 7, 8, 9, 10, 11] =
     [21, 64, 106, 149, 192, 234, 277, 320, 362, 405, 448, 490]"
    by code_simp
  from a b show ?thesis by (rule conjI)
qed

text \<open>
  Claim C10, amended. For a key count of at least 1 and the playfield width
  512, every output of the mapper is the center of a column index \<open>i\<close> between
  0 and \<open>keys - 1\<close>, where the center is the integer part of
  \<open>i * (512 / keys) + (512 / keys) / 2\<close> with every operation rounded to
  binary64; for a key count of at most \<open>2 ^ 40\<close> this is the integer part of the
  exact value or 1 less. The mapper has at most \<open>keys\<close> distinct outputs.
\<close>

theorem mapper_image_amended:
  assumes "1 \<le> keys"
  shows "(map_column_x_to_Vectra_x x keys 512 = Inr v \<longrightarrow>
            (\<exists>i. 0 \<le> i \<and> i \<le> keys - 1 \<and> v = binary64_center keys i \<and>
                 (keys \<le> 2 ^ 40 \<longrightarrow>
                    exact_center keys i - 1 \<le> v \<and> v \<le> exact_center keys i))) \<and>
         finite {v. \<exists>x. map_column_x_to_Vectra_x x keys 512 = Inr v} \<and>
         card {v. \<exists>x. map_column_x_to_Vectra_x x keys 512 = Inr v} \<le> nat keys"
proof -
  have ex: "\<exists>i. 0 \<le> i \<and> i \<le> keys - 1 \<and> v = binary64_center keys i \<and>
                 (keys \<le> 2 ^ 40 \<longrightarrow>
                    exact_center keys i - 1 \<le> v \<and> v \<le> exact_center keys i)"
    if "map_column_x_to_Vectra_x x keys 512 = Inr v" for x v
  proof -
    from that obtain c where c: "column_of_x x keys 512 = Inr c"
      and v: "column_center c keys 512 = Inr v"
      by (auto simp: map_column_x_to_Vectra_x_def and_then_Inr_iff)
    from column_of_x_range [OF c assms] have r: "0 \<le> c" "c \<le> keys - 1" by simp_all
    from column_center_binary64 [OF v assms r(1)] have b: "v = binary64_center keys c" .
    have "exact_center keys c - 1 \<le> v \<and> v \<le> exact_center keys c" if "keys \<le> 2 ^ 40"
      unfolding b using assms that r by (rule binary64_center_close)
    with b r show ?thesis by blast
  qed
  have sub: "{v. \<exists>x. map_column_x_to_Vectra_x x keys 512 = Inr v}
      \<subseteq> binary64_center keys ` {0..keys - 1}"
  proof
    fix v
    assume "v \<in> {v. \<exists>x. map_column_x_to_Vectra_x x keys 512 = Inr v}"
    then obtain x where "map_column_x_to_Vectra_x x keys 512 = Inr v" by blast
    from ex [OF this] obtain i where "0 \<le> i" "i \<le> keys - 1" "v = binary64_center keys i"
      by blast
    then show "v \<in> binary64_center keys ` {0..keys - 1}" by simp
  qed
  have fin: "finite (binary64_center keys ` {0..keys - 1})" by simp
  have "card {v. \<exists>x. map_column_x_to_Vectra_x x keys 512 = Inr v}
      \<le> card (binary64_center keys ` {0..keys - 1})"
    by (rule card_mono [OF fin sub])
  also have "\<dots> \<le> card {0..keys - 1}" by (rule card_image_le) simp
  also have "\<dots> = nat keys" by simp
  finally have "card {v. \<exists>x. map_column_x_to_Vectra_x x keys 512 = Inr v} \<le> nat keys" .
  with ex finite_subset [OF sub fin] show ?thesis by blast
qed

theorem mapper_image_amended_witness:
  "map_column_x_to_Vectra_x 300 12 512 = Inr 319 \<and>
   binary64_center 12 7 = 319 \<and> exact_center 12 7 = 320 \<and>
   (\<exists>i. 0 \<le> i \<and> i \<le> 12 - 1 \<and> 319 = binary64_center 12 i \<and>
        exact_center 12 i - 1 \<le> 319 \<and> 319 \<le> exact_center 12 i) \<and>
   card {v. \<exists>x. map_column_x_to_Vectra_x x 12 512 = Inr v} \<le> 12"
proof -
  have a: "map_column_x_to_Vectra_x 300 12 512 = Inr 319" by code_simp
  have b: "binary64_center 12 7 = 319" by code_simp
  have c: "exact_center 12 7 = 320" by code_simp
  have "(1::int) \<le> 12" by simp
  from mapper_image_amended [OF this, of 300 319] a b c show ?thesis by simp
qed

section \<open>The mapper: range\<close>

lemma to_double_bounded:
  assumes "\<bar>r\<bar> \<le> pow2 e" and "- 1022 \<le> e" and "e < 1024"
  shows "to_double r = Inr (fl r)"
proof -
  from fl_abs_le [OF assms(1,2)] have "\<bar>fl r\<bar> \<le> pow2 e" .
  also have "pow2 e < pow2 1024" using assms(3) by simp
  finally show ?thesis by (rule to_double_ok)
qed

lemma fl_below_512: "fl (512 - 1 / 2 ^ 44) = 512 - 1 / 2 ^ 44"
  by code_simp

lemma fl_one: "fl 1 = 1"
  using fl_pow2 [of 0] by simp

lemma pow2_9: "pow2 9 = 512"
  by (simp add: pow2_def)

lemma pow2_m41: "pow2 (- 41) = 1 / 2 ^ 41"
  by (simp add: pow2_def)

lemma pow2_m42: "pow2 (- 42) = 1 / 2 ^ 42"
  by (simp add: pow2_def)

lemma pow2_50: "pow2 50 = 2 ^ 50"
  by (simp add: pow2_def)

text \<open>The column width \<^verbatim>\<open>512 / keys\<close> for a key count between 1 and \<open>2 ^ 50\<close>.\<close>

lemma col_width_512:
  assumes "1 \<le> keys" and "keys \<le> 2 ^ 50"
  shows "true_div 512 keys = Inr (fl (512 / of_int keys)) \<and>
         pow2 (- 41) \<le> fl (512 / of_int keys) \<and>
         fl (512 / of_int keys) \<le> pow2 9 \<and>
         fl (512 / of_int keys) \<le> 512 / of_int keys + 512 / of_int keys / 2 ^ 53"
proof -
  define r0 :: rat where "r0 = 512 / of_int keys"
  from assms(1) have kpos: "(0::rat) < of_int keys" by simp
  from assms(2) have "(of_int keys :: rat) \<le> of_int (2 ^ 50)"
    by (simp only: of_int_le_iff)
  then have kle: "(of_int keys :: rat) \<le> 2 ^ 50" by simp
  from assms(1) have k1: "(1::rat) \<le> of_int keys" by simp
  have lo: "pow2 (- 41) \<le> r0"
    unfolding pow2_m41 r0_def using kpos kle by (simp add: field_simps)
  have hi: "r0 \<le> pow2 9"
    unfolding pow2_9 r0_def using kpos k1 by (simp add: field_simps)
  have "fl (pow2 (- 41)) \<le> fl r0" using lo by (rule fl_mono)
  then have wlo: "pow2 (- 41) \<le> fl r0" by (simp add: fl_pow2)
  have "fl r0 \<le> fl (pow2 9)" using hi by (rule fl_mono)
  then have whi: "fl r0 \<le> pow2 9" by (simp add: fl_pow2)
  from lo have "0 \<le> r0" using pow2_nonneg [of "- 41"] by linarith
  with hi have "\<bar>r0\<bar> \<le> pow2 9" by simp
  then have "to_double r0 = Inr (fl r0)" by (rule to_double_bounded) simp_all
  with assms(1) have td: "true_div 512 keys = Inr (fl r0)"
    by (simp add: true_div_def r0_def)
  have "pow2 (- 1022) \<le> pow2 (- 41)" by simp
  with lo have "pow2 (- 1022) \<le> r0" by linarith
  then have "fl r0 \<le> r0 + r0 / 2 ^ 53" by (rule fl_error_upper)
  with td wlo whi show ?thesis unfolding r0_def by simp
qed

lemma column_of_x_total:
  assumes "1 \<le> keys" and "keys \<le> 2 ^ 50" and "\<bar>x\<bar> \<le> 2 ^ 980"
  shows "\<exists>c. column_of_x x keys 512 = Inr c"
proof -
  define w where "w = fl (512 / of_int keys)"
  from col_width_512 [OF assms(1,2)]
  have td: "true_div 512 keys = Inr w" and wlo: "pow2 (- 41) \<le> w"
    unfolding w_def by simp_all
  from wlo have wpos: "0 < w" using pow2_pos [of "- 41"] by linarith
  have "(of_int \<bar>x\<bar> :: rat) \<le> of_int (2 ^ 980)"
    using assms(3) by (simp only: of_int_le_iff)
  moreover have "pow2 980 = of_int (2 ^ 980)"
    by (simp add: pow2_def)
  ultimately have xb: "\<bar>of_int x :: rat\<bar> \<le> pow2 980" by simp
  then have itf: "int_to_float x = Inr (fl (of_int x))"
    unfolding int_to_float_def by (rule to_double_bounded) simp_all
  from xb have xfb: "\<bar>fl (of_int x)\<bar> \<le> pow2 980" by (rule fl_abs_le) simp
  have split: "pow2 980 = pow2 1021 * pow2 (- 41)"
    using pow2_add [of 1021 "- 41"] by simp
  have "\<bar>fl (of_int x) / w\<bar> = \<bar>fl (of_int x)\<bar> / w" using wpos by simp
  also have "\<dots> \<le> pow2 980 / w" using xfb wpos by (simp add: divide_right_mono)
  also have "\<dots> \<le> pow2 980 / pow2 (- 41)"
    using wlo wpos by (intro divide_left_mono) simp_all
  also have "\<dots> = pow2 1021" unfolding split by simp
  finally have "to_double (fl (of_int x) / w) = Inr (fl (fl (of_int x) / w))"
    by (rule to_double_bounded) simp_all
  with wpos have fd: "float_div (fl (of_int x)) w = Inr (fl (fl (of_int x) / w))"
    by (simp add: float_div_def)
  show ?thesis
    by (simp add: column_of_x_def td itf fd Let_def)
qed

lemma column_center_range:
  assumes "1 \<le> keys" and "keys \<le> 2 ^ 50" and "0 \<le> col" and "col \<le> keys - 1"
  shows "\<exists>v. column_center col keys 512 = Inr v \<and> 0 \<le> v \<and> v < 512"
proof -
  define U :: rat where "U = 1 + 1 / 2 ^ 53"
  define r0 :: rat where "r0 = 512 / of_int keys"
  define w where "w = fl r0"
  define cf where "cf = fl (of_int col)"
  define p where "p = fl (cf * w)"
  define h where "h = fl (w / 2)"
  define s where "s = fl (p + h)"
  have U1: "1 \<le> U" "0 \<le> U" unfolding U_def by simp_all
  from assms(1) have kpos: "(0::rat) < of_int keys" by simp
  from assms(2) have "(of_int keys :: rat) \<le> of_int (2 ^ 50)"
    by (simp only: of_int_le_iff)
  then have kle: "(of_int keys :: rat) \<le> 2 ^ 50" by simp
  have r0pos: "0 \<le> r0" unfolding r0_def using kpos by simp
  from col_width_512 [OF assms(1,2)]
  have td: "true_div 512 keys = Inr w" and wlo: "pow2 (- 41) \<le> w" and whi: "w \<le> pow2 9"
    and "w \<le> r0 + r0 / 2 ^ 53"
    unfolding w_def r0_def by simp_all
  then have wU: "w \<le> r0 * U" unfolding U_def by (simp add: algebra_simps)
  from wlo have wpos: "0 < w" using pow2_pos [of "- 41"] by linarith
  from assms(3) have c0: "(0::rat) \<le> of_int col" by simp
  from assms(2,4) have "col \<le> 2 ^ 50" by simp
  then have "(of_int col :: rat) \<le> of_int (2 ^ 50)" by (simp only: of_int_le_iff)
  with c0 have cb: "\<bar>of_int col :: rat\<bar> \<le> pow2 50" by (simp add: pow2_50)
  then have itf: "int_to_float col = Inr cf"
    unfolding int_to_float_def cf_def by (rule to_double_bounded) simp_all
  from c0 have cf0: "0 \<le> cf" unfolding cf_def by (rule fl_nonneg)
  from cb have "\<bar>cf\<bar> \<le> pow2 50" unfolding cf_def by (rule fl_abs_le) simp
  with cf0 have cfhi: "cf \<le> pow2 50" by simp
  have cfU: "cf \<le> of_int col * U"
  proof (cases "col = 0")
    case True
    then show ?thesis by (simp add: cf_def)
  next
    case False
    with assms(3) have "1 \<le> col" by simp
    then have "(1::rat) \<le> of_int col" by simp
    then have "pow2 (- 1022) \<le> of_int col"
      using pow2_le_iff [of "- 1022" 0] by simp
    from fl_error_upper [OF this] show ?thesis
      unfolding cf_def U_def by (simp add: algebra_simps)
  qed
  have "cf * w \<le> pow2 50 * pow2 9"
    using cfhi whi cf0 wpos by (intro mult_mono) simp_all
  also have "\<dots> = pow2 59" using pow2_add [of 50 9] by simp
  finally have "cf * w \<le> pow2 59" .
  moreover have cw0: "0 \<le> cf * w" using cf0 wpos by simp
  ultimately have "\<bar>cf * w\<bar> \<le> pow2 59" by simp
  then have fm: "float_mul cf w = Inr p"
    unfolding float_mul_def p_def by (rule to_double_bounded) simp_all
  from cw0 have p0: "0 \<le> p" unfolding p_def by (rule fl_nonneg)
  have pU: "p \<le> cf * w * U"
  proof (cases "col = 0")
    case True
    then show ?thesis by (simp add: p_def cf_def)
  next
    case False
    with assms(3) have "1 \<le> col" by simp
    then have "(pow2 0 :: rat) \<le> of_int col" by simp
    then have "fl (pow2 0) \<le> cf" unfolding cf_def by (rule fl_mono)
    then have "1 \<le> cf" by (simp add: fl_one)
    then have "1 * pow2 (- 41) \<le> cf * w"
      using wlo by (intro mult_mono) simp_all
    moreover have "pow2 (- 1022) \<le> pow2 (- 41)" by simp
    ultimately have "pow2 (- 1022) \<le> cf * w" by linarith
    from fl_error_upper [OF this] show ?thesis
      unfolding p_def U_def by (simp add: algebra_simps)
  qed
  have "\<bar>w / 2\<bar> \<le> pow2 9" using wpos whi by simp
  then have "to_double (w / 2) = Inr h"
    unfolding h_def by (rule to_double_bounded) simp_all
  then have fd: "float_div w 2 = Inr h" by (simp add: float_div_def)
  have h0: "0 \<le> h" unfolding h_def using wpos by (intro fl_nonneg) simp
  have "pow2 (- 42) \<le> w / 2" using wlo unfolding pow2_m41 pow2_m42 by simp
  moreover have "pow2 (- 1022) \<le> pow2 (- 42)" by simp
  ultimately have "pow2 (- 1022) \<le> w / 2" by linarith
  from fl_error_upper [OF this] have hU: "h \<le> w / 2 * U"
    unfolding h_def U_def by (simp add: algebra_simps)
  have a1: "p + h \<le> U * (w * (cf + 1 / 2))"
    using pU hU by (simp add: algebra_simps)
  have a2: "cf + 1 / 2 \<le> (of_int col + 1 / 2) * U"
  proof -
    have "(1::rat) / 2 \<le> 1 / 2 * U" using U1 by simp
    with cfU show ?thesis by (simp add: algebra_simps)
  qed
  have a3: "w * (cf + 1 / 2) \<le> (r0 * U) * ((of_int col + 1 / 2) * U)"
    using wU a2 cf0 r0pos U1 by (intro mult_mono) simp_all
  from assms(4) have "(of_int col :: rat) \<le> of_int (keys - 1)" by (simp only: of_int_le_iff)
  then have a4: "(of_int col :: rat) + 1 / 2 \<le> of_int keys - 1 / 2" by simp
  have "r0 * (of_int col + 1 / 2) \<le> r0 * (of_int keys - 1 / 2)"
    using a4 r0pos by (rule mult_left_mono)
  also have "\<dots> = 512 - 256 / of_int keys"
    unfolding r0_def using kpos by (simp add: field_simps)
  also have "\<dots> \<le> 512 - 256 / 2 ^ 50"
    using kpos kle by (simp add: field_simps)
  finally have a5: "r0 * (of_int col + 1 / 2) \<le> 512 - 256 / 2 ^ 50" .
  have "U * (w * (cf + 1 / 2)) \<le> U * ((r0 * U) * ((of_int col + 1 / 2) * U))"
    using a3 U1(2) by (rule mult_left_mono)
  also have "\<dots> = (U * U * U) * (r0 * (of_int col + 1 / 2))"
    by (simp add: algebra_simps)
  also have "\<dots> \<le> (U * U * U) * (512 - 256 / 2 ^ 50)"
    using a5 U1(2) by (intro mult_left_mono) simp_all
  also have "\<dots> \<le> 512 - 1 / 2 ^ 44"
    unfolding U_def by simp
  finally have "U * (w * (cf + 1 / 2)) \<le> 512 - 1 / 2 ^ 44" .
  with a1 have sum_hi: "p + h \<le> 512 - 1 / 2 ^ 44" by linarith
  have sum0: "0 \<le> p + h" using p0 h0 by simp
  have "fl (p + h) \<le> fl (512 - 1 / 2 ^ 44)" using sum_hi by (rule fl_mono)
  then have s_hi: "s \<le> 512 - 1 / 2 ^ 44" unfolding s_def fl_below_512 .
  have s0: "0 \<le> s" unfolding s_def using sum0 by (rule fl_nonneg)
  from sum_hi sum0 have "\<bar>p + h\<bar> \<le> pow2 9" unfolding pow2_9 by simp
  then have fa: "float_add p h = Inr s"
    unfolding float_add_def s_def by (rule to_double_bounded) simp_all
  have res: "column_center col keys 512 = Inr (float_to_int s)"
    by (simp add: column_center_def td itf fm fd fa)
  from s0 have v: "float_to_int s = \<lfloor>s\<rfloor>" by (simp add: float_to_int_def)
  from s0 have v0: "0 \<le> \<lfloor>s\<rfloor>" by simp
  from s_hi have "s < 512" by simp
  then have "\<lfloor>s\<rfloor> < 512" by (simp add: floor_less_iff)
  with res v v0 show ?thesis by simp
qed

text \<open>
  Claim C4 says that for every integer x and every key count of at least 1
  the mapper returns a value in the interval from 0 up to, not including,
  512. With \<open>keys = 2 ^ 53\<close> and \<open>x = 512\<close> the column is \<open>keys - 1\<close>, its center
  \<open>512 - 2 ^ - 45\<close> is not a binary64 number and rounds to 512, and the mapper
  returns 512.
\<close>

theorem mapper_counterexample:
  "map_column_x_to_Vectra_x 512 9007199254740992 512 = Inr 512"
  by code_simp

text \<open>
  Claim C4, amended. For every key count from 1 to \<open>2 ^ 50\<close> and every integer x
  of magnitude at most \<open>2 ^ 980\<close>, the mapper with playfield width 512 returns
  a value, that value is at least 0 and below 512, and it is the only value
  the mapper returns for these inputs.
\<close>

theorem mapper_in_range:
  assumes "1 \<le> keys" and "keys \<le> 2 ^ 50" and "\<bar>x\<bar> \<le> 2 ^ 980"
  shows "\<exists>!v. map_column_x_to_Vectra_x x keys 512 = Inr v \<and> 0 \<le> v \<and> v < 512"
proof -
  from column_of_x_total [OF assms] obtain c where c: "column_of_x x keys 512 = Inr c"
    by blast
  from column_of_x_range [OF c assms(1)] have "0 \<le> c" "c \<le> keys - 1" by simp_all
  from column_center_range [OF assms(1,2) this] obtain v
    where "column_center c keys 512 = Inr v" "0 \<le> v" "v < 512" by blast
  with c have "map_column_x_to_Vectra_x x keys 512 = Inr v \<and> 0 \<le> v \<and> v < 512"
    by (simp add: map_column_x_to_Vectra_x_def)
  then show ?thesis by auto
qed

theorem mapper_in_range_witness:
  "map_column_x_to_Vectra_x 300 7 512 = Inr 329 \<and> (0::int) \<le> 329 \<and> (329::int) < 512"
proof -
  have e: "map_column_x_to_Vectra_x 300 7 512 = Inr 329" by code_simp
  have "(1::int) \<le> 7" and "(7::int) \<le> 2 ^ 50" and "\<bar>300::int\<bar> \<le> 2 ^ 980" by simp_all
  from mapper_in_range [OF this]
  have "\<exists>!v. map_column_x_to_Vectra_x 300 7 512 = Inr v \<and> 0 \<le> v \<and> v < 512" .
  with e show ?thesis by auto
qed

section \<open>The mapper on the four-key layout\<close>

text \<open>
  Claim C6. With \<open>keys = 4\<close> and a playfield width of 512 the mapper sends
  x = 0 to 64, x = 127 to 64, x = 128 to 192 and x = 511 to 448.
\<close>

theorem map_four_keys_examples:
  "map_column_x_to_Vectra_x 0 4 512 = Inr 64 \<and>
   map_column_x_to_Vectra_x 127 4 512 = Inr 64 \<and>
   map_column_x_to_Vectra_x 128 4 512 = Inr 192 \<and>
   map_column_x_to_Vectra_x 511 4 512 = Inr 448"
  by code_simp

end
